theory Spec2Isabelle
  imports
    Complex_Main
    "HOL-Library.Char_ord"
    "HOL-Library.List_Lexorder"
    "HOL-Library.Product_Lexorder"
    "HOL-Library.Sublist"
begin

section \<open>Data model: the message table\<close>

text \<open>
  The pipeline passes one pandas DataFrame from stage to stage, each stage adding
  columns. A frame is modelled as the list of its rows in frame order; a row carries
  its index label (\<open>idx\<close>, what \<open>df.loc\<close> addresses) and one field for every column
  the analysed functions read or write. Timestamps are instants in nanoseconds since
  the epoch; \<open>None\<close> is pandas' \<open>NaT\<close>. \<open>response_time_hours\<close> is \<open>None\<close> where the
  column holds a missing value (\<open>NaT\<close> or \<open>NaN\<close>). Floats are modelled as reals.
\<close>

datatype direction = Outbound | Inbound

datatype py_error = IndexError | KeyError | ZeroDivisionError

record row =
  idx :: nat
  thread_id :: string
  sender :: string
  recipient :: string
  timestamp :: "int option"
  content :: string
  direction :: direction
  contact_person :: string
  sentiment_polarity :: real
  message_length :: nat
  word_count :: nat
  question_count :: nat
  has_greeting :: bool
  has_url :: bool
  has_linkedin_profile :: bool
  is_reply :: bool
  is_first_message :: bool
  is_outbound_initiated :: bool
  response_time_hours :: "real option"
  previous_sender :: "string option"

type_synonym frame = "row list"

subsection \<open>Frame primitives\<close>

text \<open>
  \<open>sort_values\<close> puts missing values last (\<open>na_position='last'\<close>): a timestamp is
  keyed by a flag that is \<open>True\<close> for \<open>NaT\<close>, then by its value. Sorting on several
  columns is pandas' lexsort, a stable sort; \<open>sort_key\<close> is a stable insertion sort.
\<close>

definition ts_key :: "int option \<Rightarrow> bool \<times> int" where
  "ts_key t = (case t of None \<Rightarrow> (True, 0) | Some v \<Rightarrow> (False, v))"

definition thread_ts_key :: "row \<Rightarrow> string \<times> bool \<times> int" where
  "thread_ts_key r = (thread_id r, ts_key (timestamp r))"

definition sort_values_thread_ts :: "frame \<Rightarrow> frame" where
  "sort_values_thread_ts df = sort_key thread_ts_key df"

text \<open>\<open>df.loc[i, col] = v\<close>: every row labelled \<open>i\<close> is updated.\<close>

definition loc_set :: "nat \<Rightarrow> (row \<Rightarrow> row) \<Rightarrow> frame \<Rightarrow> frame" where
  "loc_set i f df = map (\<lambda>r. if idx r = i then f r else r) df"

text \<open>\<open>Series.unique()\<close>: the distinct values in order of first appearance.\<close>

fun unique :: "'a list \<Rightarrow> 'a list" where
  "unique [] = []"
| "unique (x # xs) = x # unique (filter (\<lambda>y. y \<noteq> x) xs)"

text \<open>
  \<open>(b - a).total_seconds() / 3600\<close>; when either instant is \<open>NaT\<close> the difference is
  \<open>NaT\<close>, its \<open>total_seconds()\<close> is \<open>NaN\<close>, and the stored value is missing.
\<close>

definition hours_between :: "int option \<Rightarrow> int option \<Rightarrow> real option" where
  "hours_between a b =
     (case (a, b) of
        (Some ta, Some tb) \<Rightarrow> Some (real_of_int (tb - ta) / 1000000000 / 3600)
      | _ \<Rightarrow> None)"

section \<open>Thread reconstruction: \<open>detect_replies_and_response_times\<close>\<close>

definition init_columns :: "row \<Rightarrow> row" where
  "init_columns r = r\<lparr>is_reply := False, is_first_message := False,
     is_outbound_initiated := False, response_time_hours := None,
     previous_sender := None\<rparr>"

definition mark_reply :: "row \<Rightarrow> row \<Rightarrow> row \<Rightarrow> row" where
  "mark_reply prev_row cur r = r\<lparr>is_reply := True,
     previous_sender := Some (sender prev_row),
     response_time_hours := hours_between (timestamp prev_row) (timestamp cur)\<rparr>"

text \<open>
  The loop over \<open>enumerate(thread_df.iterrows())\<close>: \<open>prev_row\<close> is the row before the
  current one in the thread snapshot; the first row is skipped by the caller.
\<close>

fun walk :: "row \<Rightarrow> row list \<Rightarrow> frame \<Rightarrow> frame" where
  "walk prev_row [] df = df"
| "walk prev_row (cur # rest) df =
     walk cur rest
       (if sender cur \<noteq> sender prev_row
        then loc_set (idx cur) (mark_reply prev_row cur) df else df)"

text \<open>\<open>df[df['thread_id'] == thread_id]\<close>: the rows of one thread, in frame order.\<close>

definition thread_of :: "string \<Rightarrow> frame \<Rightarrow> frame" where
  "thread_of tid df = filter (\<lambda>r. thread_id r = tid) df"

text \<open>
  One iteration of the loop over \<open>df['thread_id'].unique()\<close>. \<open>thread_df\<close> is a copy taken
  at the start of the iteration; all writes go to \<open>df\<close> through \<open>df.loc\<close>.
\<close>

definition process_thread :: "string \<Rightarrow> frame \<Rightarrow> string \<Rightarrow> frame" where
  "process_thread user_name df tid =
     (let thread_df = thread_of tid df in
      case thread_df of
        [] \<Rightarrow> df
      | first # rest \<Rightarrow>
          let df1 = loc_set (idx first) (\<lambda>r. r\<lparr>is_first_message := True\<rparr>) df;
              is_outbound_thread = (sender first = user_name);
              df2 = foldl (\<lambda>d i. loc_set i
                      (\<lambda>r. r\<lparr>is_outbound_initiated := is_outbound_thread\<rparr>) d)
                      df1 (map idx thread_df)
          in walk first rest df2)"

definition detect_replies_and_response_times :: "frame \<Rightarrow> py_error + frame" where
  "detect_replies_and_response_times df =
     (let df0 = map init_columns (sort_values_thread_ts df) in
      case filter (\<lambda>r. direction r = Outbound) df0 of
        [] \<Rightarrow> Inl IndexError
      | u # _ \<Rightarrow>
          Inr (foldl (process_thread (sender u)) df0 (unique (map thread_id df0))))"

subsection \<open>Sample rows\<close>

text \<open>Concrete frames on which the theorems below are instantiated.\<close>

definition blank_row :: row where
  "blank_row = \<lparr>idx = 0, thread_id = ''t1'', sender = ''me'', recipient = ''alice'',
     timestamp = Some 0, content = ''hi'', direction = Outbound,
     contact_person = ''alice'', sentiment_polarity = 0, message_length = 2,
     word_count = 1, question_count = 0, has_greeting = True, has_url = False,
     has_linkedin_profile = False, is_reply = False,
     is_first_message = False, is_outbound_initiated = False,
     response_time_hours = None, previous_sender = None\<rparr>"

subsection \<open>Auxiliary functions for the proofs about thread reconstruction\<close>

text \<open>
  The writes of one thread iteration only depend on the thread snapshot, so the iteration
  is a map over the frame: \<open>walkf\<close> is what \<open>walk\<close> does to a single row, \<open>thread_fn\<close>
  what \<open>process_thread\<close> does to it. \<open>rt_walk\<close> and \<open>rt_thread\<close> list the response times
  a thread ends with. \<open>keeps\<close> says that a row update leaves label, thread, sender and
  timestamp alone.
\<close>

fun walkf :: "row \<Rightarrow> row list \<Rightarrow> row \<Rightarrow> row" where
  "walkf prev_row [] r = r"
| "walkf prev_row (cur # rest) r =
     walkf cur rest
       (if sender cur \<noteq> sender prev_row \<and> idx r = idx cur
        then mark_reply prev_row cur r else r)"

fun rt_walk :: "row \<Rightarrow> row list \<Rightarrow> real option list" where
  "rt_walk prev_row [] = []"
| "rt_walk prev_row (cur # rest) =
     (if sender cur \<noteq> sender prev_row
      then hours_between (timestamp prev_row) (timestamp cur)
      else response_time_hours cur) # rt_walk cur rest"

definition keeps :: "(row \<Rightarrow> row) \<Rightarrow> bool" where
  "keeps g = (\<forall>r. idx (g r) = idx r \<and> thread_id (g r) = thread_id r
     \<and> sender (g r) = sender r \<and> timestamp (g r) = timestamp r)"

definition thread_fn :: "string \<Rightarrow> row list \<Rightarrow> row \<Rightarrow> row" where
  "thread_fn user_name thread_df r =
     (case thread_df of [] \<Rightarrow> r
      | first # rest \<Rightarrow> walkf first rest
          ((\<lambda>r. if idx r \<in> idx ` set thread_df
                then r\<lparr>is_outbound_initiated := (sender first = user_name)\<rparr> else r)
           ((\<lambda>r. if idx r = idx first then r\<lparr>is_first_message := True\<rparr> else r) r)))"

definition rt_thread :: "row list \<Rightarrow> real option list" where
  "rt_thread T = (case T of [] \<Rightarrow> [] | first # rest \<Rightarrow> response_time_hours first # rt_walk first rest)"

text \<open>
  Two-message threads: a reply after two hours; a reply whose timestamp is \<open>NaT\<close>; two
  messages with the same timestamp, listed against their labels' order.
\<close>

definition thread_sample :: frame where
  "thread_sample =
     [blank_row,
      blank_row\<lparr>idx := 1, sender := ''alice'', recipient := ''me'', direction := Inbound,
        contact_person := ''alice'', timestamp := Some 7200000000000\<rparr>]"

definition thread_sample_nat :: frame where
  "thread_sample_nat =
     [blank_row,
      blank_row\<lparr>idx := 1, sender := ''alice'', recipient := ''me'', direction := Inbound,
        contact_person := ''alice'', timestamp := None\<rparr>]"

definition thread_sample_tie :: frame where
  "thread_sample_tie =
     [blank_row\<lparr>idx := 1, sender := ''alice'', recipient := ''me'', direction := Inbound,
        contact_person := ''alice''\<rparr>,
      blank_row]"

section \<open>Loading: \<open>load_messages_csv\<close>\<close>

text \<open>
  A raw row is a row of the CSV with the five required columns; an empty cell is
  \<open>None\<close>. \<open>pd.to_datetime(..., errors="coerce")\<close> is a library function: a \<open>DATE\<close> cell
  is modelled by what pandas makes of its text, \<open>DateText t\<close> for text that parses to the
  instant \<open>t\<close>, \<open>BadText s\<close> for text that does not parse, \<open>NoDate\<close> for an empty cell.
  The last two are coerced to \<open>NaT\<close>.
\<close>

datatype date_cell = DateText int | BadText string | NoDate

record raw_row =
  raw_conversation_id :: "string option"
  raw_from :: "string option"
  raw_to :: "string option"
  raw_date :: date_cell
  raw_content :: "string option"

record message =
  msg_idx :: nat
  msg_thread_id :: string
  msg_sender :: string
  msg_recipient :: "string option"
  msg_timestamp :: "int option"
  msg_content :: string

fun to_datetime_coerce :: "date_cell \<Rightarrow> int option" where
  "to_datetime_coerce (DateText t) = Some t"
| "to_datetime_coerce (BadText s) = None"
| "to_datetime_coerce NoDate = None"

text \<open>
  \<open>df.dropna(subset=['thread_id', 'sender', 'content'])\<close>, on a row paired with its
  index label: the row is dropped when one of the three cells is empty; a kept row has
  these three fields as plain strings from then on.
\<close>

definition dropna_essential :: "nat \<times> raw_row \<Rightarrow> message option" where
  "dropna_essential ir =
     (case (raw_conversation_id (snd ir), raw_from (snd ir), raw_content (snd ir)) of
        (Some t, Some s, Some c) \<Rightarrow>
          Some \<lparr>msg_idx = fst ir, msg_thread_id = t, msg_sender = s,
                msg_recipient = raw_to (snd ir),
                msg_timestamp = to_datetime_coerce (raw_date (snd ir)), msg_content = c\<rparr>
      | _ \<Rightarrow> None)"

definition message_key :: "message \<Rightarrow> string \<times> bool \<times> int" where
  "message_key m = (msg_thread_id m, ts_key (msg_timestamp m))"

text \<open>
  The labels are those of \<open>read_csv\<close>'s default range index; the last step is
  \<open>df.sort_values(['thread_id', 'timestamp'])\<close>.
\<close>

definition load_messages_csv :: "raw_row list \<Rightarrow> message list" where
  "load_messages_csv raw =
     sort_key message_key (List.map_filter dropna_essential (enumerate 0 raw))"

definition raw_sample :: "raw_row list" where
  "raw_sample =
     [\<lparr>raw_conversation_id = Some ''t1'', raw_from = Some ''me'', raw_to = Some ''alice'',
        raw_date = BadText ''yesterday-ish'', raw_content = Some ''hi''\<rparr>,
      \<lparr>raw_conversation_id = Some ''t1'', raw_from = Some ''alice'', raw_to = Some ''me'',
        raw_date = DateText 7200000000000, raw_content = None\<rparr>]"

definition raw_sample_tie :: "raw_row list" where
  "raw_sample_tie =
     [\<lparr>raw_conversation_id = Some ''t1'', raw_from = Some ''me'', raw_to = Some ''alice'',
        raw_date = DateText 0, raw_content = Some ''zz''\<rparr>,
      \<lparr>raw_conversation_id = Some ''t1'', raw_from = Some ''alice'', raw_to = Some ''me'',
        raw_date = DateText 0, raw_content = Some ''aa''\<rparr>]"

section \<open>Text primitives\<close>

text \<open>
  A string is a list of characters with code points below 256. \<open>str.lower()\<close> maps the
  upper-case letters of that range (\<open>A\<close> to \<open>Z\<close>, and \<open>0xC0\<close> to \<open>0xDE\<close> but for the
  multiplication sign \<open>0xD7\<close>) 32 places up. \<open>word in s\<close> is the contiguous sublist
  test; \<open>any(word in s for word in words)\<close> is \<open>any_in\<close>.
\<close>

definition lower_char :: "char \<Rightarrow> char" where
  "lower_char c =
     (let n = (of_char c :: nat) in
      if (65 \<le> n \<and> n \<le> 90) \<or> (192 \<le> n \<and> n \<le> 222 \<and> n \<noteq> 215)
      then char_of (n + 32) else c)"

definition py_lower :: "string \<Rightarrow> string" where
  "py_lower s = map lower_char s"

definition contains :: "string \<Rightarrow> string \<Rightarrow> bool" where
  "contains word s = sublist word s"

definition any_in :: "string list \<Rightarrow> string \<Rightarrow> bool" where
  "any_in words s = list_ex (\<lambda>word. contains word s) words"

text \<open>The whitespace characters of \<open>str.isspace\<close>, \<open>str.strip\<close> and the pattern class \<open>\s\<close>.\<close>

definition whitespace_chars :: string where
  "whitespace_chars = [CHR 0x09, CHR 0x0A, CHR 0x0B, CHR 0x0C, CHR 0x0D, CHR 0x1C, CHR 0x1D,
     CHR 0x1E, CHR 0x1F, CHR 0x20, CHR 0x85, CHR 0xA0]"

definition py_strip :: "string \<Rightarrow> string" where
  "py_strip s =
     rev (dropWhile (\<lambda>c. c \<in> set whitespace_chars)
       (rev (dropWhile (\<lambda>c. c \<in> set whitespace_chars) s)))"

section \<open>Outbound performance: \<open>analyze_outbound_performance\<close>\<close>

text \<open>
  One record per dictionary appended to \<open>outbound_performance\<close>; the score column is
  added to the finished table, which is the record extension \<open>scored_record\<close>.
\<close>

record outbound_record =
  message_id :: nat
  o_thread_id :: string
  o_timestamp :: "int option"
  o_contact_person :: string
  o_content :: string
  o_message_length :: nat
  o_word_count :: nat
  o_sentiment_polarity :: real
  got_response :: bool
  o_response_time_hours :: "real option"
  responder :: "string option"
  is_conversation_starter :: bool
  message_type :: string
  o_has_greeting :: bool
  o_question_count :: nat
  o_has_url :: bool
  o_has_linkedin_profile :: bool

record scored_record = outbound_record +
  performance_score :: real

text \<open>
  \<open>a > b\<close> on timestamps: a comparison with \<open>NaT\<close> is false. \<open>sort_values('timestamp')\<close>
  sorts one column, missing values last. Its default algorithm does not fix the order
  of rows with equal timestamps; the model keeps their frame order, and no statement
  below depends on that order.
\<close>

definition later :: "int option \<Rightarrow> int option \<Rightarrow> bool" where
  "later a b = (case (a, b) of (Some ta, Some tb) \<Rightarrow> tb < ta | _ \<Rightarrow> False)"

definition sort_values_ts :: "frame \<Rightarrow> frame" where
  "sort_values_ts df = sort_key (\<lambda>r. ts_key (timestamp r)) df"

definition responses_to :: "frame \<Rightarrow> row \<Rightarrow> row list" where
  "responses_to df msg =
     filter (\<lambda>r. later (timestamp r) (timestamp msg) \<and> direction r = Inbound)
       (sort_values_ts (thread_of (thread_id msg) df))"

text \<open>The \<open>if\<close>/\<open>elif\<close> chain that names the message type; the first rule that matches wins.\<close>

definition classify_message_type :: "string \<Rightarrow> string" where
  "classify_message_type c =
     (let content_lower = py_lower c in
      if any_in [''thanks'', ''thank you''] content_lower then ''thank_you''
      else if any_in [''hi '', ''hello'', ''hey''] content_lower then ''greeting''
      else if contains ''?'' c then ''question''
      else if any_in [''follow up'', ''following up''] content_lower then ''follow_up''
      else if any_in [''opportunity'', ''position'', ''role'', ''job''] content_lower
        then ''opportunity_inquiry''
      else if any_in [''connect'', ''connection'', ''network''] content_lower
        then ''connection_request''
      else ''other'')"

definition outbound_row :: "frame \<Rightarrow> row \<Rightarrow> outbound_record" where
  "outbound_row df msg =
     (let responses = responses_to df msg;
          got = (responses \<noteq> [])
      in \<lparr>message_id = idx msg,
          o_thread_id = thread_id msg,
          o_timestamp = timestamp msg,
          o_contact_person = contact_person msg,
          o_content = content msg,
          o_message_length = message_length msg,
          o_word_count = word_count msg,
          o_sentiment_polarity = sentiment_polarity msg,
          got_response = got,
          o_response_time_hours =
            (case responses of [] \<Rightarrow> None
             | first_response # _ \<Rightarrow> hours_between (timestamp msg) (timestamp first_response)),
          responder =
            (case responses of [] \<Rightarrow> None
             | first_response # _ \<Rightarrow> Some (sender first_response)),
          is_conversation_starter = (is_first_message msg \<and> is_outbound_initiated msg),
          message_type = classify_message_type (content msg),
          o_has_greeting = has_greeting msg,
          o_question_count = question_count msg,
          o_has_url = has_url msg,
          o_has_linkedin_profile = has_linkedin_profile msg\<rparr>)"

definition add_performance_score :: "outbound_record \<Rightarrow> scored_record" where
  "add_performance_score r = outbound_record.extend r
     \<lparr>performance_score =
        of_bool (got_response r) * 10
        + (o_sentiment_polarity r + 1) * 2
        + of_bool (o_has_greeting r) * 1
        + (real (o_question_count r) * 0.5)
        + (real (o_word_count r) / 50) * 0.1\<rparr>"

definition self_initiated :: "frame \<Rightarrow> frame" where
  "self_initiated df = filter (\<lambda>r. direction r = Outbound \<and> is_outbound_initiated r = True) df"

text \<open>
  When no row is selected, \<open>pd.DataFrame([])\<close> has no columns and reading
  \<open>performance_df['got_response']\<close> raises \<open>KeyError\<close>.
\<close>

definition analyze_outbound_performance :: "frame \<Rightarrow> py_error + scored_record list" where
  "analyze_outbound_performance df =
     (let outbound_performance = map (outbound_row df) (self_initiated df) in
      if outbound_performance = [] then Inl KeyError
      else Inr (map add_performance_score outbound_performance))"

text \<open>
  \<open>is_response df msg x\<close>: \<open>x\<close> is an inbound message of \<open>msg\<close>'s thread with a strictly
  later timestamp.
\<close>

definition is_response :: "frame \<Rightarrow> row \<Rightarrow> row \<Rightarrow> bool" where
  "is_response df msg x =
     (x \<in> set df \<and> thread_id x = thread_id msg \<and> direction x = Inbound
      \<and> later (timestamp x) (timestamp msg))"

definition outbound_sample :: frame where
  "outbound_sample = projr (detect_replies_and_response_times thread_sample)"

section \<open>Regular expressions\<close>

text \<open>
  \<open>re.search(pattern, s)\<close> is used as a test: is some part of \<open>s\<close> matched by the
  pattern? The patterns of the classifier are built from literals, character classes,
  sequence, alternation, \<open>*\<close>, \<open>+\<close> and \<open>?\<close>; for these a match exists exactly when some
  contiguous part of \<open>s\<close> is in the pattern's language, which the derivative matcher below
  decides. \<open>Chars cs\<close> matches one character out of \<open>cs\<close>.
\<close>

datatype regex = Null | Eps | Chars string | Seq regex regex | Alt regex regex | Star regex

fun nullable :: "regex \<Rightarrow> bool" where
  "nullable Null = False"
| "nullable Eps = True"
| "nullable (Chars cs) = False"
| "nullable (Seq r s) = (nullable r \<and> nullable s)"
| "nullable (Alt r s) = (nullable r \<or> nullable s)"
| "nullable (Star r) = True"

fun deriv :: "char \<Rightarrow> regex \<Rightarrow> regex" where
  "deriv c Null = Null"
| "deriv c Eps = Null"
| "deriv c (Chars cs) = (if c \<in> set cs then Eps else Null)"
| "deriv c (Seq r s) =
     (if nullable r then Alt (Seq (deriv c r) s) (deriv c s) else Seq (deriv c r) s)"
| "deriv c (Alt r s) = Alt (deriv c r) (deriv c s)"
| "deriv c (Star r) = Seq (deriv c r) (Star r)"

fun match_prefix :: "regex \<Rightarrow> string \<Rightarrow> bool" where
  "match_prefix r [] = nullable r"
| "match_prefix r (c # cs) = (nullable r \<or> match_prefix (deriv c r) cs)"

fun re_search :: "regex \<Rightarrow> string \<Rightarrow> bool" where
  "re_search r [] = nullable r"
| "re_search r (c # cs) = (match_prefix r (c # cs) \<or> re_search r cs)"

text \<open>
  The language of a pattern, against which the matcher is justified: \<open>re_search r s\<close>
  holds exactly when some contiguous part of \<open>s\<close> is a word of \<open>lang r\<close>.
\<close>

inductive_set star :: "string set \<Rightarrow> string set" for A :: "string set" where
  star_nil: "[] \<in> star A"
| star_app: "u \<in> A \<Longrightarrow> v \<in> star A \<Longrightarrow> u @ v \<in> star A"

fun lang :: "regex \<Rightarrow> string set" where
  "lang Null = {}"
| "lang Eps = {[]}"
| "lang (Chars cs) = {[c] | c. c \<in> set cs}"
| "lang (Seq r s) = {u @ v | u v. u \<in> lang r \<and> v \<in> lang s}"
| "lang (Alt r s) = lang r \<union> lang s"
| "lang (Star r) = star (lang r)"

definition Lit :: "string \<Rightarrow> regex" where
  "Lit s = foldr (\<lambda>c r. Seq (Chars [c]) r) s Eps"

definition Alts :: "string list \<Rightarrow> regex" where
  "Alts ws = foldr (\<lambda>w r. Alt (Lit w) r) ws Null"

definition Plus :: "regex \<Rightarrow> regex" where
  "Plus r = Seq r (Star r)"

definition Opt :: "regex \<Rightarrow> regex" where
  "Opt r = Alt r Eps"

text \<open>\<open>\d\<close> and \<open>\s\<close> on code points below 256.\<close>

definition digit :: regex where
  "digit = Chars ''0123456789''"

definition space :: regex where
  "space = Chars whitespace_chars"

section \<open>Sales classification: \<open>is_sales_message\<close>\<close>

definition sales_keywords :: "string list" where
  "sales_keywords =
     [''opportunity'', ''position'', ''role'', ''job'', ''hire'', ''hiring'', ''candidate'',
      ''application'', ''applied'', ''resume'', ''cv'', ''interview'',
      ''business'', ''company'', ''client'', ''customer'', ''service'', ''services'',
      ''consulting'', ''consultant'', ''help'', ''assist'', ''solution'',
      ''revenue'', ''growth'', ''arr'', ''saas'', ''sales'', ''marketing'',
      ''partner'', ''partnership'', ''collaborate'', ''collaboration'', ''work together'',
      ''project'', ''freelance'', ''contract'', ''contractor'',
      ''meeting'', ''call'', ''demo'', ''presentation'', ''discuss'', ''chat'',
      ''schedule'', ''available'', ''time'', ''calendar'',
      ''experience'', ''expertise'', ''skills'', ''background'', ''portfolio'',
      ''results'', ''success'', ''achieve'', ''deliver'', ''provide'']"

text \<open>
  The five business-context patterns and the five qualifying-question patterns, in the
  order of the source lists.
\<close>

definition business_patterns :: "regex list" where
  "business_patterns =
     [Seq (Lit ''$'') (Seq (Plus digit) (Seq (Opt (Chars ''mk'')) (Seq (Star space)
        (Alts [''arr'', ''revenue'', ''million'', ''thousand''])))),
      Seq (Plus digit) (Seq (Opt (Lit ''+'')) (Seq (Star space)
        (Seq (Alt (Seq (Lit ''year'') (Opt (Lit ''s''))) (Seq (Lit ''month'') (Opt (Lit ''s''))))
          (Seq (Star space) (Alts [''experience'', ''exp'']))))),
      Alts [''ceo'', ''cto'', ''founder'', ''manager'', ''director'', ''lead''],
      Alts [''startup'', ''company'', ''business'', ''firm'', ''agency''],
      Alts [''b2b'', ''saas'', ''fintech'', ''web3'', ''crypto'']]"

definition sales_questions :: "regex list" where
  "sales_questions =
     [Seq (Lit ''are you '') (Alts [''open'', ''interested'', ''available'', ''looking'']),
      Seq (Lit ''would you '') (Alts [''like'', ''be interested'', ''consider'']),
      Seq (Lit ''do you '') (Alts [''need'', ''want'', ''have'', ''work'']),
      Seq (Lit ''what '') (Alts [''are you'', ''do you'', ''is your'']),
      Seq (Lit ''how '') (Alts [''many'', ''much'', ''long'', ''do you''])]"

text \<open>
  The inner function \<open>is_sales_message(content)\<close>; \<open>None\<close> is a missing cell
  (\<open>pd.isna(content)\<close>). Each \<open>sum(1 for x in xs if test(x))\<close> is a sum of ones over the
  elements that pass the test.
\<close>

definition is_sales_message :: "string option \<Rightarrow> bool" where
  "is_sales_message content_cell =
     (case content_cell of
        None \<Rightarrow> False
      | Some c \<Rightarrow>
          let content_lower = py_lower c;
              sales_score = sum_list (map (\<lambda>keyword. (1::nat))
                              (filter (\<lambda>keyword. contains keyword content_lower) sales_keywords));
              pattern_matches = sum_list (map (\<lambda>pattern. (1::nat))
                              (filter (\<lambda>pattern. re_search pattern content_lower) business_patterns));
              question_matches = sum_list (map (\<lambda>pattern. (1::nat))
                              (filter (\<lambda>pattern. re_search pattern content_lower) sales_questions));
              total_score = real sales_score + real (pattern_matches * 2)
                              + real question_matches * 1.5
          in total_score \<ge> 2)"

text \<open>
  The weighted score in the words of the specification: one point per distinct keyword
  of the vocabulary that occurs in the content, two per business-context pattern that
  matches, one and a half per qualifying-question pattern that matches.
\<close>

definition weighted_score :: "string \<Rightarrow> real" where
  "weighted_score content_lower =
     1 * real (card {k \<in> set sales_keywords. contains k content_lower})
     + 2 * real (card {p \<in> set business_patterns. re_search p content_lower})
     + 1.5 * real (card {p \<in> set sales_questions. re_search p content_lower})"

section \<open>Text similarity: \<open>difflib.SequenceMatcher\<close>\<close>

text \<open>
  \<open>SequenceMatcher(None, a, b)\<close> of the standard library, with no junk predicate and the
  automatic junk heuristic on. For a \<open>b\<close> of 200 elements or more, an element that occurs
  more than \<open>len(b) // 100 + 1\<close> times is popular and has no entry in \<open>b2j\<close>; the junk
  set is empty.
\<close>

definition popular :: "string \<Rightarrow> char \<Rightarrow> bool" where
  "popular b elt = (length b \<ge> 200 \<and> count_list b elt > length b div 100 + 1)"

definition b2j :: "string \<Rightarrow> char \<Rightarrow> nat list" where
  "b2j b elt = (if popular b elt then [] else filter (\<lambda>j. b ! j = elt) [0..<length b])"

text \<open>
  \<open>find_longest_match\<close>. The state of its main loop is the best match so far
  \<open>(besti, bestj, bestsize)\<close> and the dictionary \<open>j2len\<close>, a function that is 0 where the
  dictionary has no entry; \<open>j2lenget j2len j\<close> is \<open>j2len.get(j - 1, 0)\<close>. The inner loop runs
  over the indices of \<open>b2j[a[i]]\<close>, the outer loop over the rows \<open>i\<close>. The two \<open>while\<close>
  loops that follow extend the match by equal elements on both sides; the two loops
  after them extend by junk only and never run.
\<close>

type_synonym match = "nat \<times> nat \<times> nat"

type_synonym flm_state = "match \<times> (nat \<Rightarrow> nat)"

definition j2lenget :: "(nat \<Rightarrow> nat) \<Rightarrow> nat \<Rightarrow> nat" where
  "j2lenget j2len j = (case j of 0 \<Rightarrow> 0 | Suc j' \<Rightarrow> j2len j')"

fun inner_loop :: "(nat \<Rightarrow> nat) \<Rightarrow> nat \<Rightarrow> nat \<Rightarrow> nat \<Rightarrow> nat list \<Rightarrow> flm_state \<Rightarrow> flm_state" where
  "inner_loop j2len blo bhi i [] st = st"
| "inner_loop j2len blo bhi i (j # js) (best, newj2len) =
     (if j < blo then inner_loop j2len blo bhi i js (best, newj2len)
      else if j \<ge> bhi then (best, newj2len)
      else
        let k = j2lenget j2len j + 1 in
        inner_loop j2len blo bhi i js
          (if k > snd (snd best) then (Suc i - k, Suc j - k, k) else best,
           newj2len(j := k)))"

fun outer_loop :: "string \<Rightarrow> string \<Rightarrow> nat \<Rightarrow> nat \<Rightarrow> nat list \<Rightarrow> flm_state \<Rightarrow> flm_state" where
  "outer_loop a b blo bhi [] st = st"
| "outer_loop a b blo bhi (i # is) (best, j2len) =
     outer_loop a b blo bhi is
       (inner_loop j2len blo bhi i (b2j b (a ! i)) (best, (\<lambda>_. 0)))"

function extend_left :: "string \<Rightarrow> string \<Rightarrow> nat \<Rightarrow> nat \<Rightarrow> match \<Rightarrow> match" where
  "extend_left a b alo blo (besti, bestj, bestsize) =
     (if besti > alo \<and> bestj > blo \<and> a ! (besti - 1) = b ! (bestj - 1)
      then extend_left a b alo blo (besti - 1, bestj - 1, bestsize + 1)
      else (besti, bestj, bestsize))"
  by pat_completeness auto
termination
  by (relation "measure (\<lambda>(a, b, alo, blo, besti, bestj, bestsize). besti)") auto

function extend_right :: "string \<Rightarrow> string \<Rightarrow> nat \<Rightarrow> nat \<Rightarrow> match \<Rightarrow> match" where
  "extend_right a b ahi bhi (besti, bestj, bestsize) =
     (if besti + bestsize < ahi \<and> bestj + bestsize < bhi
         \<and> a ! (besti + bestsize) = b ! (bestj + bestsize)
      then extend_right a b ahi bhi (besti, bestj, bestsize + 1)
      else (besti, bestj, bestsize))"
  by pat_completeness auto
termination
  by (relation "measure (\<lambda>(a, b, ahi, bhi, besti, bestj, bestsize). ahi - (besti + bestsize))") auto

definition find_longest_match :: "string \<Rightarrow> string \<Rightarrow> nat \<Rightarrow> nat \<Rightarrow> nat \<Rightarrow> nat \<Rightarrow> match" where
  "find_longest_match a b alo ahi blo bhi =
     (let (best, j2len) = outer_loop a b blo bhi [alo..<ahi] ((alo, blo, 0), (\<lambda>_. 0))
      in extend_right a b ahi bhi (extend_left a b alo blo best))"

text \<open>
  \<open>get_matching_blocks\<close> serves a queue of index ranges and sorts the matches it found;
  \<open>blocks\<close> lists them by recursion on the range. The recursion ends because a match
  found in a range lies in it, which \<open>good_match\<close> records.
\<close>

definition good_match :: "nat \<Rightarrow> nat \<Rightarrow> match \<Rightarrow> bool" where
  "good_match alo ahi m =
     (case m of (i, j, k) \<Rightarrow> alo \<le> i + k \<and> (k \<noteq> 0 \<longrightarrow> alo < i + k) \<and> (i < ahi \<or> i \<le> alo))"

lemma inner_loop_good:
  "good_match alo ahi (fst st) \<Longrightarrow> alo \<le> i \<Longrightarrow> i < ahi \<Longrightarrow>
   good_match alo ahi (fst (inner_loop j2len blo bhi i js st))"
proof (induction j2len blo bhi i js st rule: inner_loop.induct)
  case (1 j2len blo bhi i st)
  then show ?case by simp
next
  case (2 j2len blo bhi i j js best newj2len)
  let ?k = "j2lenget j2len j + 1"
  have g: "good_match alo ahi (Suc i - ?k, Suc j - ?k, ?k)"
    using "2.prems"(2,3) by (auto simp: good_match_def)
  show ?case
  proof (cases "j < blo")
    case True
    with 2 show ?thesis by simp
  next
    case nb: False
    show ?thesis
    proof (cases "j \<ge> bhi")
      case True
      with nb "2.prems" show ?thesis by simp
    next
      case False
      let ?best' = "if ?k > snd (snd best) then (Suc i - ?k, Suc j - ?k, ?k) else best"
      have gb: "good_match alo ahi (fst (?best', newj2len(j := ?k)))"
        using g "2.prems"(1) by simp
      have "inner_loop j2len blo bhi i (j # js) (best, newj2len)
          = inner_loop j2len blo bhi i js (?best', newj2len(j := ?k))"
        using nb False by (simp add: Let_def)
      moreover have "good_match alo ahi
          (fst (inner_loop j2len blo bhi i js (?best', newj2len(j := ?k))))"
        by (rule "2.IH"(2)[OF nb False refl gb "2.prems"(2,3)])
      ultimately show ?thesis by simp
    qed
  qed
qed

lemma outer_loop_good:
  "good_match alo ahi (fst st) \<Longrightarrow> \<forall>i \<in> set is. alo \<le> i \<and> i < ahi \<Longrightarrow>
   good_match alo ahi (fst (outer_loop a b blo bhi is st))"
proof (induction a b blo bhi "is" st rule: outer_loop.induct)
  case (1 a b blo bhi st)
  then show ?case by simp
next
  case (2 a b blo bhi i "is" best j2len)
  have "good_match alo ahi (fst (inner_loop j2len blo bhi i (b2j b (a ! i)) (best, (\<lambda>_. 0))))"
    using "2.prems" by (intro inner_loop_good) auto
  with 2 show ?case by simp
qed

declare extend_left.simps [simp del] extend_right.simps [simp del]

lemma extend_left_good:
  "good_match alo ahi m \<Longrightarrow> good_match alo ahi (extend_left a b alo blo m)"
proof (induction a b alo blo m rule: extend_left.induct)
  case (1 a b alo blo besti bestj bestsize)
  show ?case
  proof (cases "besti > alo \<and> bestj > blo \<and> a ! (besti - 1) = b ! (bestj - 1)")
    case True
    have "good_match alo ahi (besti - 1, bestj - 1, bestsize + 1)"
      using True "1.prems" by (auto simp: good_match_def)
    from "1.IH"[OF True this] show ?thesis
      unfolding extend_left.simps[of a b alo blo besti bestj bestsize] if_P[OF True] .
  next
    case False
    from "1.prems" show ?thesis
      unfolding extend_left.simps[of a b alo blo besti bestj bestsize] if_not_P[OF False] .
  qed
qed

lemma extend_right_good:
  "good_match alo ahi m \<Longrightarrow> good_match alo ahi (extend_right a b ahi bhi m)"
proof (induction a b ahi bhi m rule: extend_right.induct)
  case (1 a b ahi bhi besti bestj bestsize)
  show ?case
  proof (cases "besti + bestsize < ahi \<and> bestj + bestsize < bhi
         \<and> a ! (besti + bestsize) = b ! (bestj + bestsize)")
    case True
    have "good_match alo ahi (besti, bestj, bestsize + 1)"
      using True "1.prems" by (auto simp: good_match_def)
    from "1.IH"[OF True this] show ?thesis
      unfolding extend_right.simps[of a b ahi bhi besti bestj bestsize] if_P[OF True] .
  next
    case False
    from "1.prems" show ?thesis
      unfolding extend_right.simps[of a b ahi bhi besti bestj bestsize] if_not_P[OF False] .
  qed
qed

lemma find_longest_match_good:
  "good_match alo ahi (find_longest_match a b alo ahi blo bhi)"
proof -
  have "good_match alo ahi (fst (outer_loop a b blo bhi [alo..<ahi] ((alo, blo, 0), (\<lambda>_. 0))))"
    by (rule outer_loop_good) (auto simp: good_match_def)
  then have "good_match alo ahi (extend_right a b ahi bhi (extend_left a b alo blo
      (fst (outer_loop a b blo bhi [alo..<ahi] ((alo, blo, 0), (\<lambda>_. 0))))))"
    by (intro extend_right_good extend_left_good)
  then show ?thesis
    by (cases "outer_loop a b blo bhi [alo..<ahi] ((alo, blo, 0), (\<lambda>_. 0))")
      (simp add: find_longest_match_def)
qed

lemma find_longest_match_bounds:
  assumes "find_longest_match a b alo ahi blo bhi = (i, j, k)" "k \<noteq> 0"
  shows "alo < i \<Longrightarrow> i < ahi" and "alo < i + k"
  using find_longest_match_good[of alo ahi a b blo bhi] assms
  by (auto simp: good_match_def)

function blocks :: "string \<Rightarrow> string \<Rightarrow> nat \<Rightarrow> nat \<Rightarrow> nat \<Rightarrow> nat \<Rightarrow> match list" where
  "blocks a b alo ahi blo bhi =
     (let x = find_longest_match a b alo ahi blo bhi;
          i = fst x; j = fst (snd x); k = snd (snd x)
      in if k = 0 then []
         else (if alo < i \<and> blo < j then blocks a b alo i blo j else [])
              @ [x]
              @ (if i + k < ahi \<and> j + k < bhi then blocks a b (i + k) ahi (j + k) bhi else []))"
  by pat_completeness auto
termination
proof (relation "measure (\<lambda>(a, b, alo, ahi, blo, bhi). ahi - alo)", goal_cases)
  case 1
  show ?case by simp
next
  case (2 a b alo ahi blo bhi x i j k)
  then have m: "find_longest_match a b alo ahi blo bhi = (i, j, k)" by simp
  from 2 have "k \<noteq> 0" "alo < i" by simp_all
  from find_longest_match_bounds(1)[OF m this] \<open>alo < i\<close> show ?case by simp
next
  case (3 a b alo ahi blo bhi x i j k)
  then have m: "find_longest_match a b alo ahi blo bhi = (i, j, k)" by simp
  from 3 have "k \<noteq> 0" "i + k < ahi" by simp_all
  from find_longest_match_bounds(2)[OF m this(1)] this(2) show ?case by simp
qed

declare blocks.simps [simp del]

text \<open>Adjacent matches are merged and the dummy match \<open>(len(a), len(b), 0)\<close> ends the list.\<close>

fun merge_adjacent :: "match \<Rightarrow> match list \<Rightarrow> match list" where
  "merge_adjacent (i1, j1, k1) [] = (if k1 \<noteq> 0 then [(i1, j1, k1)] else [])"
| "merge_adjacent (i1, j1, k1) ((i2, j2, k2) # rest) =
     (if i1 + k1 = i2 \<and> j1 + k1 = j2 then merge_adjacent (i1, j1, k1 + k2) rest
      else (if k1 \<noteq> 0 then [(i1, j1, k1)] else []) @ merge_adjacent (i2, j2, k2) rest)"

definition get_matching_blocks :: "string \<Rightarrow> string \<Rightarrow> match list" where
  "get_matching_blocks a b =
     merge_adjacent (0, 0, 0) (sort (blocks a b 0 (length a) 0 (length b)))
     @ [(length a, length b, 0)]"

text \<open>\<open>ratio()\<close> is \<open>2.0 * matches / length\<close>, and 1.0 for two empty sequences.\<close>

definition calculate_ratio :: "nat \<Rightarrow> nat \<Rightarrow> real" where
  "calculate_ratio matches len = (if len \<noteq> 0 then 2 * real matches / real len else 1)"

definition ratio :: "string \<Rightarrow> string \<Rightarrow> real" where
  "ratio a b =
     calculate_ratio (sum_list (map (\<lambda>triple. snd (snd triple)) (get_matching_blocks a b)))
       (length a + length b)"

section \<open>Pattern clustering: \<open>find_similar_sales_patterns\<close>\<close>

text \<open>
  The contents compared are \<open>str(content).lower().strip()\<close>. The frame of successful
  sales messages is a list of rows with their labels; the function is modelled from the
  point where that frame has been selected.
\<close>

definition normalize_content :: "string \<Rightarrow> string" where
  "normalize_content c = py_strip (py_lower c)"

definition similarity :: "string \<Rightarrow> string \<Rightarrow> real" where
  "similarity c1 c2 = ratio (normalize_content c1) (normalize_content c2)"

record sales_row =
  s_idx :: nat
  s_content :: string
  s_response_time_hours :: "real option"
  s_sentiment_polarity :: real
  s_message_length :: nat
  s_sales_type :: string
  s_contact_person :: string

record pattern_group =
  pattern_preview :: string
  message_count :: nat
  group_response_rate :: real
  avg_response_time :: real
  avg_sentiment :: real
  avg_length :: real
  sales_types :: "string list"
  contacts :: "string list"
  example_messages :: "string list"

definition np_mean :: "real list \<Rightarrow> real" where
  "np_mean xs = sum_list xs / real (length xs)"

text \<open>
  The inner loop over all rows: a row not yet processed joins the group when its
  similarity to the group's first message reaches the threshold.
\<close>

fun find_similar :: "string \<Rightarrow> real \<Rightarrow> sales_row list \<Rightarrow> sales_row list \<times> nat set
    \<Rightarrow> sales_row list \<times> nat set" where
  "find_similar current_content threshold [] st = st"
| "find_similar current_content threshold (msg2 # rest) (similar_messages, processed_indices) =
     (if s_idx msg2 \<in> processed_indices
      then find_similar current_content threshold rest (similar_messages, processed_indices)
      else if ratio current_content (normalize_content (s_content msg2)) \<ge> threshold
      then find_similar current_content threshold rest
             (similar_messages @ [msg2], insert (s_idx msg2) processed_indices)
      else find_similar current_content threshold rest (similar_messages, processed_indices))"

definition group_data :: "string \<Rightarrow> sales_row list \<Rightarrow> pattern_group" where
  "group_data current_content similar_messages =
     (let response_times = List.map_filter s_response_time_hours similar_messages in
      \<lparr>pattern_preview =
         (if length current_content > 100 then take 100 current_content @ ''...''
          else current_content),
       message_count = length similar_messages,
       group_response_rate = 1,
       avg_response_time = (if response_times \<noteq> [] then np_mean response_times else 0),
       avg_sentiment = np_mean (map s_sentiment_polarity similar_messages),
       avg_length = np_mean (map (\<lambda>m. real (s_message_length m)) similar_messages),
       sales_types = map s_sales_type similar_messages,
       contacts = map s_contact_person similar_messages,
       example_messages = map s_content (take 3 similar_messages)\<rparr>)"

fun group_messages :: "real \<Rightarrow> sales_row list \<Rightarrow> sales_row list \<Rightarrow> nat set
    \<Rightarrow> pattern_group list" where
  "group_messages threshold sales_messages [] processed_indices = []"
| "group_messages threshold sales_messages (msg # rest) processed_indices =
     (if s_idx msg \<in> processed_indices
      then group_messages threshold sales_messages rest processed_indices
      else
        let current_content = normalize_content (s_content msg);
            (similar_messages, processed') =
               find_similar current_content threshold sales_messages
                 ([msg], insert (s_idx msg) processed_indices)
        in (if length similar_messages \<ge> 2
            then [group_data current_content similar_messages] else [])
           @ group_messages threshold sales_messages rest processed')"

text \<open>
  \<open>list.sort(key=..., reverse=True)\<close>: descending by key, elements with equal keys in
  their original order.
\<close>

definition sort_reverse :: "('a \<Rightarrow> 'k::linorder) \<Rightarrow> 'a list \<Rightarrow> 'a list" where
  "sort_reverse key xs = rev (sort_key key (rev xs))"

definition pattern_sort_key :: "pattern_group \<Rightarrow> nat \<times> real" where
  "pattern_sort_key x = (message_count x, - avg_response_time x)"

definition find_similar_sales_patterns :: "sales_row list \<Rightarrow> real \<Rightarrow> pattern_group list" where
  "find_similar_sales_patterns sales_messages similarity_threshold =
     (if sales_messages = [] then []
      else sort_reverse pattern_sort_key
             (group_messages similarity_threshold sales_messages sales_messages {}))"

definition sales_sample :: "sales_row list" where
  "sales_sample =
     [\<lparr>s_idx = 0, s_content = ''Job offer'', s_response_time_hours = Some 5,
        s_sentiment_polarity = 0, s_message_length = 9, s_sales_type = ''job_seeking'',
        s_contact_person = ''alice''\<rparr>,
      \<lparr>s_idx = 1, s_content = '' job offer '', s_response_time_hours = Some 5,
        s_sentiment_polarity = 0, s_message_length = 11, s_sales_type = ''job_seeking'',
        s_contact_person = ''bob''\<rparr>,
      \<lparr>s_idx = 2, s_content = ''SaaS demo'', s_response_time_hours = Some 1,
        s_sentiment_polarity = 0, s_message_length = 9, s_sales_type = ''meeting_request'',
        s_contact_person = ''carol''\<rparr>,
      \<lparr>s_idx = 3, s_content = ''saas demo'', s_response_time_hours = Some 1,
        s_sentiment_polarity = 0, s_message_length = 9, s_sales_type = ''meeting_request'',
        s_contact_person = ''dave''\<rparr>]"

subsection \<open>Auxiliary functions for the proof that a string matches itself\<close>

text \<open>
  \<open>run a i\<close> is the number of consecutive unpopular elements of \<open>a\<close> that end at index
  \<open>i\<close>. \<open>outer_inv\<close> and \<open>inner_inv\<close> are the invariants of the two loops of
  \<open>find_longest_match\<close> when a sequence is compared with itself: the best match lies on
  the diagonal, and every run that ended in a row already seen is no longer than it.
\<close>

fun run :: "string \<Rightarrow> nat \<Rightarrow> nat" where
  "run a 0 = (if popular a (a ! 0) then 0 else 1)"
| "run a (Suc i) = (if popular a (a ! Suc i) then 0 else run a i + 1)"

definition inner_inv :: "string \<Rightarrow> nat \<Rightarrow> nat list \<Rightarrow> flm_state \<Rightarrow> bool" where
  "inner_inv a i js st =
     (case st of ((bi, bj, bs), nj) \<Rightarrow>
        bi = bj \<and> bi + bs \<le> Suc i \<and> (\<forall>i' < i. run a i' \<le> bs)
        \<and> (i \<notin> set js \<longrightarrow> run a i \<le> bs \<and> nj i = run a i)
        \<and> (\<forall>j. nj j \<le> run a i \<and> nj j \<le> run a j))"

definition outer_inv :: "string \<Rightarrow> nat \<Rightarrow> flm_state \<Rightarrow> bool" where
  "outer_inv a i st =
     (case st of ((bi, bj, bs), j2len) \<Rightarrow>
        bi = bj \<and> bi + bs \<le> i \<and> (\<forall>i' < i. run a i' \<le> bs)
        \<and> (case i of 0 \<Rightarrow> \<forall>j. j2len j = 0
            | Suc i' \<Rightarrow> (\<forall>j. j2len j \<le> run a i' \<and> j2len j \<le> run a j) \<and> j2len i' = run a i'))"

section \<open>Sales insights: \<open>get_sales_insights\<close> and the response rate\<close>

text \<open>
  The dictionary \<open>sales_performance\<close> is a record of the keys the function reads,
  \<open>None\<close> for the empty dictionary. Rates are Python numbers: \<open>x / y\<close> raises
  \<open>ZeroDivisionError\<close> when \<open>y\<close> is zero. A recommendation is the value its text is
  formatted from.
\<close>

record type_stats =
  total_sent :: nat
  type_response_rate :: real

record sales_performance =
  sales_total_messages :: nat
  sales_response_rate :: real
  non_sales_response_rate :: real
  sales_performance_by_type :: "(string \<times> type_stats) list"

datatype recommendation =
    SalesPerformBetter real
  | ConsiderCasual
  | FocusOn string
  | ReuseTopPattern nat

record sales_insights =
  total_sales_messages :: nat
  insight_sales_response_rate :: real
  insight_non_sales_response_rate :: real
  sales_vs_non_sales_lift :: real
  best_performing_sales_type :: "string option"
  worst_performing_sales_type :: "string option"
  most_common_patterns :: nat
  top_sales_recommendations :: "recommendation list"

definition truediv :: "real \<Rightarrow> real \<Rightarrow> py_error + real" where
  "truediv x y = (if y = 0 then Inl ZeroDivisionError else Inr (x / y))"

definition get_sales_insights ::
    "sales_performance option \<Rightarrow> pattern_group list \<Rightarrow> py_error + sales_insights option" where
  "get_sales_insights sales_performance sales_patterns =
     (case sales_performance of
        None \<Rightarrow> Inr None
      | Some sp \<Rightarrow>
          let sales_rate = sales_response_rate sp;
              non_sales_rate = non_sales_response_rate sp
          in case (if non_sales_rate > 0
                   then truediv (sales_rate - non_sales_rate) non_sales_rate
                   else Inr 0) of
               Inl e \<Rightarrow> Inl e
             | Inr lift \<Rightarrow>
                 let type_performance =
                       sort_reverse snd
                         (map (\<lambda>(k, v). (k, type_response_rate v))
                            (filter (\<lambda>(k, v). total_sent v \<ge> 3) (sales_performance_by_type sp)));
                     best = (case type_performance of [] \<Rightarrow> None | _ \<Rightarrow> Some (fst (hd type_performance)));
                     worst = (case type_performance of [] \<Rightarrow> None | _ \<Rightarrow> Some (fst (last type_performance)))
                 in case (if sales_rate > non_sales_rate
                          then (case truediv sales_rate non_sales_rate of
                                  Inl e \<Rightarrow> Inl e
                                | Inr q \<Rightarrow> Inr [SalesPerformBetter ((q - 1) * 100)])
                          else Inr [ConsiderCasual]) of
                      Inl e \<Rightarrow> Inl e
                    | Inr recs \<Rightarrow>
                        Inr (Some \<lparr>total_sales_messages = sales_total_messages sp,
                          insight_sales_response_rate = sales_rate,
                          insight_non_sales_response_rate = non_sales_rate,
                          sales_vs_non_sales_lift = lift,
                          best_performing_sales_type = best,
                          worst_performing_sales_type = worst,
                          most_common_patterns = length sales_patterns,
                          top_sales_recommendations =
                            recs
                            @ (case best of None \<Rightarrow> []
                               | Some t \<Rightarrow> if t = [] then [] else [FocusOn t])
                            @ (case sales_patterns of [] \<Rightarrow> []
                               | top_pattern # _ \<Rightarrow> [ReuseTopPattern (message_count top_pattern)])\<rparr>))"

text \<open>The \<open>response_rate\<close> entry of \<open>get_conversation_summary\<close> in \<open>direction.py\<close>.\<close>

definition response_rate :: "nat \<Rightarrow> nat \<Rightarrow> py_error + real" where
  "response_rate inbound_messages outbound_messages =
     (if outbound_messages > 0 then truediv (real inbound_messages) (real outbound_messages)
      else Inr 0)"

definition performance_sample :: sales_performance where
  "performance_sample = \<lparr>sales_total_messages = 2, sales_response_rate = 1/2,
     non_sales_response_rate = 0, sales_performance_by_type = []\<rparr>"

section \<open>General lemmas\<close>

lemma map_sum_Inr_projr: "map_sum f g x = Inr y \<Longrightarrow> x = Inr (projr x) \<and> g (projr x) = y"
  by (cases x) auto

lemma map_singleton: "map f xs = [y] \<Longrightarrow> xs = [hd xs] \<and> f (hd xs) = y"
  by (cases xs) auto

section \<open>Properties of the loader\<close>

lemma set_map_filter_iff: "(y \<in> set (List.map_filter f xs)) = (\<exists>x \<in> set xs. f x = Some y)"
  by (induction xs) (auto split: option.splits)

lemma set_load_messages_csv:
  "set (load_messages_csv raw) =
     {m. \<exists>i < length raw. dropna_essential (i, raw ! i) = Some m}"
proof (rule set_eqI)
  fix m
  have "(m \<in> set (load_messages_csv raw))
      = (\<exists>x \<in> set (enumerate 0 raw). dropna_essential x = Some m)"
    by (simp add: load_messages_csv_def set_map_filter_iff)
  also have "\<dots> = (\<exists>i < length raw. dropna_essential (i, raw ! i) = Some m)"
  proof
    assume "\<exists>x \<in> set (enumerate 0 raw). dropna_essential x = Some m"
    then obtain i r where "(i, r) \<in> set (enumerate 0 raw)" "dropna_essential (i, r) = Some m"
      by auto
    then have "i < length raw \<and> dropna_essential (i, raw ! i) = Some m"
      by (simp add: in_set_enumerate_eq)
    then show "\<exists>i < length raw. dropna_essential (i, raw ! i) = Some m" by blast
  next
    assume "\<exists>i < length raw. dropna_essential (i, raw ! i) = Some m"
    then obtain i where i: "i < length raw" "dropna_essential (i, raw ! i) = Some m" by blast
    then have "(i, raw ! i) \<in> set (enumerate 0 raw)" by (simp add: in_set_enumerate_eq)
    with i(2) show "\<exists>x \<in> set (enumerate 0 raw). dropna_essential x = Some m" by blast
  qed
  finally show "(m \<in> set (load_messages_csv raw))
      = (m \<in> {m. \<exists>i < length raw. dropna_essential (i, raw ! i) = Some m})" by simp
qed

lemma dropna_essential_Some:
  "dropna_essential (i, r) = Some m \<Longrightarrow>
     msg_idx m = i \<and> msg_timestamp m = to_datetime_coerce (raw_date r)
     \<and> raw_conversation_id r \<noteq> None \<and> raw_from r \<noteq> None \<and> raw_content r \<noteq> None"
  by (auto simp: dropna_essential_def split: option.splits)

lemma dropna_essential_None:
  "(dropna_essential (i, r) = None) =
     (raw_conversation_id r = None \<or> raw_from r = None \<or> raw_content r = None)"
  by (auto simp: dropna_essential_def split: option.splits)

text \<open>
  Claim C3, as amended. The loader keeps a row exactly when its thread id, sender and
  content are present, whatever its timestamp; a kept row carries the coerced timestamp
  of its \<open>DATE\<close> cell, so a row whose timestamp cannot be parsed stays in the frame
  with a missing timestamp.
\<close>

theorem load_keeps_rows_without_timestamp:
  "(\<forall>i < length raw.
       (\<exists>m \<in> set (load_messages_csv raw). msg_idx m = i) =
       (raw_conversation_id (raw ! i) \<noteq> None \<and> raw_from (raw ! i) \<noteq> None
        \<and> raw_content (raw ! i) \<noteq> None))
   \<and> (\<forall>m \<in> set (load_messages_csv raw).
        msg_idx m < length raw
        \<and> msg_timestamp m = to_datetime_coerce (raw_date (raw ! msg_idx m)))"
proof (intro conjI allI impI ballI)
  fix i assume i: "i < length raw"
  show "(\<exists>m \<in> set (load_messages_csv raw). msg_idx m = i) =
       (raw_conversation_id (raw ! i) \<noteq> None \<and> raw_from (raw ! i) \<noteq> None
        \<and> raw_content (raw ! i) \<noteq> None)"
  proof
    assume "\<exists>m \<in> set (load_messages_csv raw). msg_idx m = i"
    then obtain m j where "j < length raw" "dropna_essential (j, raw ! j) = Some m" "msg_idx m = i"
      by (auto simp: set_load_messages_csv)
    then show "raw_conversation_id (raw ! i) \<noteq> None \<and> raw_from (raw ! i) \<noteq> None
        \<and> raw_content (raw ! i) \<noteq> None"
      using dropna_essential_Some by blast
  next
    assume "raw_conversation_id (raw ! i) \<noteq> None \<and> raw_from (raw ! i) \<noteq> None
        \<and> raw_content (raw ! i) \<noteq> None"
    then have "dropna_essential (i, raw ! i) \<noteq> None" by (simp add: dropna_essential_None)
    then obtain m where m: "dropna_essential (i, raw ! i) = Some m" by auto
    then have "m \<in> set (load_messages_csv raw)" using i by (auto simp: set_load_messages_csv)
    moreover have "msg_idx m = i" using dropna_essential_Some[OF m] by simp
    ultimately show "\<exists>m \<in> set (load_messages_csv raw). msg_idx m = i" by blast
  qed
next
  fix m assume "m \<in> set (load_messages_csv raw)"
  then obtain j where j: "j < length raw" "dropna_essential (j, raw ! j) = Some m"
    by (auto simp: set_load_messages_csv)
  from dropna_essential_Some[OF j(2)] j(1)
  show "msg_idx m < length raw" by simp
  from dropna_essential_Some[OF j(2)] j(1)
  show "msg_timestamp m = to_datetime_coerce (raw_date (raw ! msg_idx m))" by simp
qed

lemma load_raw_sample:
  "load_messages_csv raw_sample =
     [\<lparr>msg_idx = 0, msg_thread_id = ''t1'', msg_sender = ''me'', msg_recipient = Some ''alice'',
       msg_timestamp = None, msg_content = ''hi''\<rparr>]"
  by code_simp

theorem load_keeps_rows_without_timestamp_witness:
  "(\<exists>m \<in> set (load_messages_csv raw_sample). msg_idx m = 0)
   \<and> \<not> (\<exists>m \<in> set (load_messages_csv raw_sample). msg_idx m = 1)
   \<and> msg_timestamp (hd (load_messages_csv raw_sample)) = None"
proof -
  have l: "length raw_sample = 2" by (simp add: raw_sample_def)
  have h: "hd (load_messages_csv raw_sample) \<in> set (load_messages_csv raw_sample)"
    by (simp add: load_raw_sample)
  have i: "msg_idx (hd (load_messages_csv raw_sample)) = 0" by (simp add: load_raw_sample)
  from load_keeps_rows_without_timestamp[of raw_sample] l h i
  show ?thesis by (auto simp: raw_sample_def)
qed

text \<open>
  The claim as stated fails: the first sample row has an unparseable date and is
  returned, with a missing timestamp.
\<close>

theorem load_drops_unparseable_counterexample:
  "map (\<lambda>m. (msg_idx m, msg_timestamp m)) (load_messages_csv raw_sample) = [(0, None)]"
  by (simp add: load_raw_sample)

lemma message_key_eq:
  "(message_key m = (tid, ts_key ts)) = (msg_thread_id m = tid \<and> msg_timestamp m = ts)"
  by (cases "msg_timestamp m"; cases ts) (auto simp: message_key_def ts_key_def)

lemma load_messages_csv_stable:
  "filter (\<lambda>m. msg_thread_id m = tid \<and> msg_timestamp m = ts) (load_messages_csv raw)
     = filter (\<lambda>m. msg_thread_id m = tid \<and> msg_timestamp m = ts)
         (List.map_filter dropna_essential (enumerate 0 raw))"
  using sort_key_stable[of message_key "(tid, ts_key ts)"]
  by (simp add: message_key_eq load_messages_csv_def)

section \<open>Properties of thread reconstruction\<close>

lemma direction_init_columns: "direction (init_columns r) = direction r"
  by (simp add: init_columns_def)

lemma set_sort_values_thread_ts: "set (sort_values_thread_ts df) = set df"
  by (simp add: sort_values_thread_ts_def)

text \<open>
  Claim C10. The user name is read from the first outbound row without a check:
  on every non-empty frame in which no row is outbound, the function raises
  \<open>IndexError\<close> and returns no frame.
\<close>

theorem detect_replies_no_outbound_raises:
  assumes "df \<noteq> []" and "\<forall>r \<in> set df. direction r \<noteq> Outbound"
  shows "detect_replies_and_response_times df = Inl IndexError"
proof -
  have "filter (\<lambda>r. direction r = Outbound)
          (map init_columns (sort_values_thread_ts df)) = []"
    using assms(2)
    by (simp add: filter_empty_conv direction_init_columns set_sort_values_thread_ts)
  then show ?thesis
    by (simp add: detect_replies_and_response_times_def Let_def)
qed

theorem detect_replies_no_outbound_raises_witness:
  "[blank_row\<lparr>direction := Inbound\<rparr>] \<noteq> []
   \<and> direction (blank_row\<lparr>direction := Inbound\<rparr>) \<noteq> Outbound
   \<and> detect_replies_and_response_times [blank_row\<lparr>direction := Inbound\<rparr>] = Inl IndexError"
  using detect_replies_no_outbound_raises [of "[blank_row\<lparr>direction := Inbound\<rparr>]"]
  by simp

lemma walk_eq_map: "walk p rows df = map (walkf p rows) df"
proof (induction rows arbitrary: p df)
  case Nil
  have "walkf p [] = (\<lambda>r. r)" by (rule ext) simp
  then show ?case by simp
next
  case (Cons cur rest)
  show ?case by (simp add: Cons.IH loc_set_def)
qed

lemma keeps_mark_reply: "keeps (mark_reply p c)"
  by (simp add: keeps_def mark_reply_def)

lemma keeps_walkf: "keeps (walkf p rows)"
  unfolding keeps_def
  by (induction rows arbitrary: p) (auto simp: mark_reply_def)

lemma walkf_other: "idx r \<notin> idx ` set rows \<Longrightarrow> walkf p rows r = r"
  by (induction rows arbitrary: p) auto

lemma rt_walkf_map:
  assumes "distinct (map idx rows)"
    and "\<And>r. idx (g r) = idx r" and "\<And>r. response_time_hours (g r) = response_time_hours r"
  shows "map (\<lambda>r. response_time_hours (walkf p rows (g r))) rows = rt_walk p rows"
  using assms(1)
proof (induction rows arbitrary: p)
  case Nil
  then show ?case by simp
next
  case (Cons cur rest)
  have notin: "idx cur \<notin> idx ` set rest" using Cons.prems by auto
  have hd: "response_time_hours (walkf p (cur # rest) (g cur)) =
      (if sender cur \<noteq> sender p then hours_between (timestamp p) (timestamp cur)
       else response_time_hours cur)"
    using notin assms(2,3) by (simp add: walkf_other mark_reply_def)
  have tl: "map (\<lambda>r. response_time_hours (walkf p (cur # rest) (g r))) rest
      = map (\<lambda>r. response_time_hours (walkf cur rest (g r))) rest"
  proof (rule map_cong[OF refl])
    fix r assume "r \<in> set rest"
    then have "idx r \<noteq> idx cur" using notin by (metis image_eqI)
    then show "response_time_hours (walkf p (cur # rest) (g r))
       = response_time_hours (walkf cur rest (g r))"
      using assms(2) by simp
  qed
  have "distinct (map idx rest)" using Cons.prems by simp
  from Cons.IH[OF this] hd tl show ?case by simp
qed

lemma foldl_loc_set:
  "foldl (\<lambda>d i. loc_set i f d) df is = map (\<lambda>r. (if idx r \<in> set is then f r else r)) df"
  if "\<And>r. idx (f r) = idx r" "\<And>r. f (f r) = f r"
  using that
proof (induction "is" arbitrary: df)
  case Nil
  then show ?case by simp
next
  case (Cons i "is")
  have "foldl (\<lambda>d i. loc_set i f d) df (i # is) = foldl (\<lambda>d i. loc_set i f d) (loc_set i f df) is"
    by simp
  also have "\<dots> = map (\<lambda>r. (if idx r \<in> set is then f r else r)) (loc_set i f df)"
    by (rule Cons.IH[OF Cons.prems])
  also have "\<dots> = map (\<lambda>r. (if idx r \<in> set (i # is) then f r else r)) df"
    by (auto simp: loc_set_def Cons.prems)
  finally show ?case .
qed

lemma process_thread_eq_map:
  "process_thread un df tid = map (thread_fn un (thread_of tid df)) df"
proof (cases "thread_of tid df")
  case Nil
  have "thread_fn un [] = (\<lambda>r. r)" by (rule ext) (simp add: thread_fn_def)
  with Nil show ?thesis by (simp add: process_thread_def)
next
  case (Cons first rest)
  have fl: "foldl (\<lambda>d i. loc_set i (\<lambda>r. r\<lparr>is_outbound_initiated := b\<rparr>) d) d0 is
      = map (\<lambda>r. (if idx r \<in> set is then r\<lparr>is_outbound_initiated := b\<rparr> else r)) d0" for b d0 "is"
    by (rule foldl_loc_set) simp_all
  have "process_thread un df tid =
      walk first rest (foldl (\<lambda>d i. loc_set i
          (\<lambda>r. r\<lparr>is_outbound_initiated := (sender first = un)\<rparr>) d)
        (loc_set (idx first) (\<lambda>r. r\<lparr>is_first_message := True\<rparr>) df)
        (map idx (first # rest)))"
    using Cons by (simp add: process_thread_def Let_def)
  also have "\<dots> = map (walkf first rest)
      (map (\<lambda>r. (if idx r \<in> set (map idx (first # rest))
                 then r\<lparr>is_outbound_initiated := (sender first = un)\<rparr> else r))
        (loc_set (idx first) (\<lambda>r. r\<lparr>is_first_message := True\<rparr>) df))"
    by (simp only: walk_eq_map fl)
  also have "\<dots> = map (thread_fn un (first # rest)) df"
    by (simp add: loc_set_def thread_fn_def)
  finally show ?thesis using Cons by simp
qed

lemma keeps_thread_fn: "keeps (thread_fn un T)"
proof (cases T)
  case Nil
  then show ?thesis by (simp add: thread_fn_def keeps_def)
next
  case (Cons first rest)
  have k: "keeps (walkf first rest)" by (rule keeps_walkf)
  show ?thesis using Cons k
    by (simp add: thread_fn_def keeps_def)
qed

lemma thread_fn_other: "idx r \<notin> idx ` set T \<Longrightarrow> thread_fn un T r = r"
  by (cases T) (auto simp: thread_fn_def walkf_other)

lemma thread_of_map_keeps:
  "keeps g \<Longrightarrow> thread_of t (map g df) = map g (thread_of t df)"
  by (simp add: thread_of_def filter_map comp_def keeps_def)

lemma map_idx_keeps: "keeps g \<Longrightarrow> map idx (map g df) = map idx df"
  by (simp add: keeps_def)

lemma idx_notin_other_thread:
  assumes "distinct (map idx df)" "r \<in> set df" "thread_id r \<noteq> tid"
  shows "idx r \<notin> idx ` set (thread_of tid df)"
proof
  assume "idx r \<in> idx ` set (thread_of tid df)"
  then obtain x where x: "x \<in> set df" "thread_id x = tid" "idx x = idx r"
    by (auto simp: thread_of_def)
  from assms(1) have "inj_on idx (set df)" by (simp add: distinct_map)
  with x assms(2) have "x = r" by (auto dest: inj_onD)
  with x assms(3) show False by simp
qed

lemma process_thread_other:
  assumes "distinct (map idx df)" "t \<noteq> tid"
  shows "thread_of t (process_thread un df tid) = thread_of t df"
proof -
  have "thread_of t (process_thread un df tid)
      = map (thread_fn un (thread_of tid df)) (thread_of t df)"
    by (simp add: process_thread_eq_map thread_of_map_keeps keeps_thread_fn)
  also have "\<dots> = map (\<lambda>r. r) (thread_of t df)"
  proof (rule map_cong[OF refl])
    fix r assume "r \<in> set (thread_of t df)"
    then have "r \<in> set df" "thread_id r \<noteq> tid" using assms(2) by (auto simp: thread_of_def)
    then show "thread_fn un (thread_of tid df) r = r"
      using idx_notin_other_thread[OF assms(1)] by (simp add: thread_fn_other)
  qed
  finally show ?thesis by simp
qed

lemma process_thread_same:
  assumes "distinct (map idx df)"
  shows "map response_time_hours (thread_of tid (process_thread un df tid))
     = rt_thread (thread_of tid df)"
proof (cases "thread_of tid df")
  case Nil
  then show ?thesis
    by (simp add: process_thread_eq_map thread_of_map_keeps keeps_thread_fn rt_thread_def)
next
  case (Cons first rest)
  have d: "distinct (map idx (first # rest))"
    using assms Cons[symmetric] by (simp add: thread_of_def distinct_map_filter)
  let ?g = "\<lambda>r. (\<lambda>r. if idx r \<in> idx ` set (first # rest)
                then r\<lparr>is_outbound_initiated := (sender first = un)\<rparr> else r)
           ((\<lambda>r. if idx r = idx first then r\<lparr>is_first_message := True\<rparr> else r) r)"
  have g1: "\<And>r. idx (?g r) = idx r" by simp
  have g2: "\<And>r. response_time_hours (?g r) = response_time_hours r" by simp
  have fn: "thread_fn un (first # rest) = (\<lambda>r. walkf first rest (?g r))"
    by (rule ext) (simp add: thread_fn_def)
  have "distinct (map idx rest)" using d by simp
  from rt_walkf_map[OF this, of ?g first, OF g1 g2]
  have tl: "map (\<lambda>r. response_time_hours (walkf first rest (?g r))) rest = rt_walk first rest" .
  have "idx first \<notin> idx ` set rest" using d by auto
  then have hd: "response_time_hours (walkf first rest (?g first)) = response_time_hours first"
    by (simp add: walkf_other)
  have "map response_time_hours (thread_of tid (process_thread un df tid))
      = map (\<lambda>r. response_time_hours (thread_fn un (first # rest) r)) (first # rest)"
    by (simp add: process_thread_eq_map thread_of_map_keeps keeps_thread_fn Cons comp_def)
  also have "\<dots> = response_time_hours first # rt_walk first rest"
    unfolding fn using hd tl by simp
  finally show ?thesis by (simp add: rt_thread_def Cons)
qed

lemma keeps_comp: "keeps g \<Longrightarrow> keeps h \<Longrightarrow> keeps (\<lambda>r. g (h r))"
  by (simp add: keeps_def)

lemma foldl_process_thread_map:
  "\<exists>g. keeps g \<and> foldl (process_thread un) df tids = map g df"
proof (induction tids arbitrary: df)
  case Nil
  have "keeps (\<lambda>r. r)" by (simp add: keeps_def)
  then show ?case by (intro exI[of _ "\<lambda>r. r"]) simp
next
  case (Cons tid tids)
  let ?g1 = "thread_fn un (thread_of tid df)"
  from Cons.IH[of "map ?g1 df"] obtain g2 where
    g2: "keeps g2" "foldl (process_thread un) (map ?g1 df) tids = map g2 (map ?g1 df)"
    by blast
  have "keeps (\<lambda>r. g2 (?g1 r))" using g2(1) keeps_thread_fn by (rule keeps_comp)
  moreover have "foldl (process_thread un) df (tid # tids) = map (\<lambda>r. g2 (?g1 r)) df"
    using g2(2) by (simp add: process_thread_eq_map)
  ultimately show ?case by blast
qed

lemma map_idx_process_thread: "map idx (process_thread un df tid) = map idx df"
  by (simp add: process_thread_eq_map map_idx_keeps keeps_thread_fn del: map_map)

lemma foldl_process_thread_rt:
  assumes "distinct tids" "distinct (map idx df)"
  shows "map response_time_hours (thread_of t (foldl (process_thread un) df tids))
     = (if t \<in> set tids then rt_thread (thread_of t df)
        else map response_time_hours (thread_of t df))"
  using assms
proof (induction tids arbitrary: df)
  case Nil
  then show ?case by simp
next
  case (Cons tid tids)
  let ?df' = "process_thread un df tid"
  have d': "distinct (map idx ?df')" using Cons.prems(2) by (simp add: map_idx_process_thread)
  have dt: "distinct tids" "tid \<notin> set tids" using Cons.prems(1) by auto
  note IH = Cons.IH[OF dt(1) d']
  show ?case
  proof (cases "t = tid")
    case True
    then show ?thesis using IH dt(2) process_thread_same[OF Cons.prems(2)] by simp
  next
    case False
    then show ?thesis using IH process_thread_other[OF Cons.prems(2) False] by simp
  qed
qed

lemma set_unique: "set (unique xs) = set xs"
  by (induction xs rule: unique.induct) auto

lemma distinct_unique: "distinct (unique xs)"
  by (induction xs rule: unique.induct) (auto simp: set_unique)

lemma rt_walk_nth:
  "k < length rows \<Longrightarrow> rt_walk p rows ! k =
     (if sender (rows ! k) \<noteq> sender ((p # rows) ! k)
      then hours_between (timestamp ((p # rows) ! k)) (timestamp (rows ! k))
      else response_time_hours (rows ! k))"
proof (induction rows arbitrary: p k)
  case Nil
  then show ?case by simp
next
  case (Cons cur rest)
  show ?case
  proof (cases k)
    case 0
    then show ?thesis by simp
  next
    case (Suc m)
    with Cons.prems have "m < length rest" by simp
    from Cons.IH[OF this, of cur] Suc show ?thesis by simp
  qed
qed

lemma rt_thread_nth:
  assumes "i < length T" and "\<forall>r \<in> set T. response_time_hours r = None"
  shows "rt_thread T ! i =
     (if 0 < i \<and> sender (T ! i) \<noteq> sender (T ! (i - 1))
      then hours_between (timestamp (T ! (i - 1))) (timestamp (T ! i)) else None)"
proof (cases T)
  case Nil
  with assms show ?thesis by simp
next
  case (Cons first rest)
  show ?thesis
  proof (cases i)
    case 0
    with Cons assms(2) show ?thesis by (simp add: rt_thread_def)
  next
    case (Suc m)
    with Cons assms(1) have m: "m < length rest" by simp
    then have "rest ! m \<in> set rest" by simp
    with assms(2) Cons have "response_time_hours (rest ! m) = None" by simp
    with rt_walk_nth[OF m, of first] Cons Suc show ?thesis
      by (simp add: rt_thread_def)
  qed
qed

lemma keeps_init_columns: "keeps init_columns"
  by (simp add: keeps_def init_columns_def)

lemma sorted_thread_ts:
  "sorted (map thread_ts_key (thread_of tid (sort_values_thread_ts df)))"
  unfolding thread_of_def sort_values_thread_ts_def
  by (rule sorted_filter) simp

lemma hours_between_nonneg:
  assumes "ts_key a \<le> ts_key b" "hours_between a b = Some h"
  shows "0 \<le> h"
  using assms
  by (auto simp: hours_between_def ts_key_def split: option.splits)

lemma hours_between_defined: "(hours_between a b \<noteq> None) = (a \<noteq> None \<and> b \<noteq> None)"
  by (cases a; cases b) (simp_all add: hours_between_def)

lemma detect_replies_thread:
  assumes dist: "distinct (map idx df)"
    and res: "detect_replies_and_response_times df = Inr out"
    and i: "i < length (thread_of tid out)"
  shows "response_time_hours (thread_of tid out ! i) =
      (if 0 < i \<and> sender (thread_of tid out ! i) \<noteq> sender (thread_of tid out ! (i - 1))
       then hours_between (timestamp (thread_of tid out ! (i - 1)))
              (timestamp (thread_of tid out ! i))
       else None)"
    and "0 < i \<Longrightarrow>
      ts_key (timestamp (thread_of tid out ! (i - 1))) \<le> ts_key (timestamp (thread_of tid out ! i))"
proof -
  define S where "S = map init_columns (sort_values_thread_ts df)"
  define tids where "tids = unique (map thread_id S)"
  obtain u where out: "out = foldl (process_thread u) S tids"
    using res unfolding detect_replies_and_response_times_def S_def[symmetric] Let_def tids_def
    by (auto split: list.splits)
  obtain g where g: "keeps g" "out = map g S"
    using foldl_process_thread_map[of u S tids] out by auto
  let ?T = "thread_of tid out" and ?TS = "thread_of tid S"
  have T: "?T = map g ?TS" using g by (simp add: thread_of_map_keeps)
  have len: "length ?TS = length ?T" using T by simp
  have iS: "i < length ?TS" using i len by simp
  have snd: "sender (?T ! j) = sender (?TS ! j)"
    and tsj: "timestamp (?T ! j) = timestamp (?TS ! j)" if "j < length ?TS" for j
    using that g(1) T by (simp_all add: keeps_def)
  have dS: "distinct (map idx S)"
  proof -
    have "map idx S = map idx (sort_values_thread_ts df)"
      using keeps_init_columns by (simp add: S_def keeps_def)
    moreover have "distinct (map idx (sort_values_thread_ts df))"
      using dist by (simp add: distinct_map sort_values_thread_ts_def)
    ultimately show ?thesis by simp
  qed
  have "?TS ! i \<in> set ?TS" using iS by simp
  then have "?TS ! i \<in> set S \<and> thread_id (?TS ! i) = tid" by (simp add: thread_of_def)
  then have "tid \<in> thread_id ` set S" by (metis imageI)
  then have "tid \<in> set (map thread_id S)" by simp
  then have tin: "tid \<in> set tids" by (simp add: tids_def set_unique)
  have "map response_time_hours ?T = rt_thread ?TS"
    using foldl_process_thread_rt[of tids S tid u] dS tin
    by (simp add: out tids_def distinct_unique)
  then have "response_time_hours (?T ! i) = rt_thread ?TS ! i"
    using i by (metis nth_map)
  moreover have "\<forall>r \<in> set ?TS. response_time_hours r = None"
    by (auto simp: thread_of_def S_def init_columns_def)
  ultimately have "response_time_hours (?T ! i) =
     (if 0 < i \<and> sender (?TS ! i) \<noteq> sender (?TS ! (i - 1))
      then hours_between (timestamp (?TS ! (i - 1))) (timestamp (?TS ! i)) else None)"
    using rt_thread_nth[OF iS] by simp
  moreover have "i - 1 < length ?TS" using iS by simp
  ultimately show "response_time_hours (?T ! i) =
      (if 0 < i \<and> sender (?T ! i) \<noteq> sender (?T ! (i - 1))
       then hours_between (timestamp (?T ! (i - 1))) (timestamp (?T ! i)) else None)"
    using snd tsj iS by simp
  show "ts_key (timestamp (?T ! (i - 1))) \<le> ts_key (timestamp (?T ! i))" if "0 < i"
  proof -
    have "?TS = map init_columns (thread_of tid (sort_values_thread_ts df))"
      using keeps_init_columns by (simp add: S_def thread_of_map_keeps)
    then have "map thread_ts_key ?TS = map thread_ts_key (thread_of tid (sort_values_thread_ts df))"
      by (simp add: thread_ts_key_def init_columns_def)
    then have srt: "sorted (map thread_ts_key ?TS)" using sorted_thread_ts by simp
    have "i - 1 \<le> i" by simp
    from sorted_nth_mono[OF srt this] iS
    have le: "thread_ts_key (?TS ! (i - 1)) \<le> thread_ts_key (?TS ! i)" by simp
    have "?TS ! i \<in> set ?TS" "?TS ! (i - 1) \<in> set ?TS" using iS by simp_all
    then have "thread_id (?TS ! i) = tid" "thread_id (?TS ! (i - 1)) = tid"
      by (simp_all add: thread_of_def)
    with le have "ts_key (timestamp (?TS ! (i - 1))) \<le> ts_key (timestamp (?TS ! i))"
      by (simp add: thread_ts_key_def less_eq_prod_simp)
    then show ?thesis using tsj iS by simp
  qed
qed

text \<open>
  Claim C1, as amended. On a frame with unique index labels, after reply detection,
  for the message at position \<open>i\<close> of any thread (in thread order):
  \<open>response_time_hours\<close> is defined exactly when the message is not the thread's first,
  its sender differs from the sender of the message just before it, and both messages
  have a timestamp; when defined it is the elapsed time between the two in hours and
  is not negative.
\<close>

theorem response_time_defined_iff:
  assumes "distinct (map idx df)"
    and "detect_replies_and_response_times df = Inr out"
    and "i < length (thread_of tid out)"
  shows "((response_time_hours (thread_of tid out ! i) \<noteq> None) =
          (0 < i \<and> sender (thread_of tid out ! i) \<noteq> sender (thread_of tid out ! (i - 1))
           \<and> timestamp (thread_of tid out ! (i - 1)) \<noteq> None
           \<and> timestamp (thread_of tid out ! i) \<noteq> None))
     \<and> (response_time_hours (thread_of tid out ! i) \<noteq> None \<longrightarrow>
          response_time_hours (thread_of tid out ! i) =
            hours_between (timestamp (thread_of tid out ! (i - 1)))
              (timestamp (thread_of tid out ! i))
          \<and> 0 \<le> the (response_time_hours (thread_of tid out ! i)))"
proof -
  note th = detect_replies_thread[OF assms]
  let ?T = "thread_of tid out"
  have a: "(response_time_hours (?T ! i) \<noteq> None) =
          (0 < i \<and> sender (?T ! i) \<noteq> sender (?T ! (i - 1))
           \<and> timestamp (?T ! (i - 1)) \<noteq> None \<and> timestamp (?T ! i) \<noteq> None)"
  proof (cases "0 < i \<and> sender (?T ! i) \<noteq> sender (?T ! (i - 1))")
    case True
    with th(1) have "response_time_hours (?T ! i) =
        hours_between (timestamp (?T ! (i - 1))) (timestamp (?T ! i))" by simp
    with True hours_between_defined[of "timestamp (?T ! (i - 1))" "timestamp (?T ! i)"]
    show ?thesis by metis
  next
    case False
    with th(1) have "response_time_hours (?T ! i) = None" by auto
    with False show ?thesis by blast
  qed
  have b: "response_time_hours (?T ! i) =
            hours_between (timestamp (?T ! (i - 1))) (timestamp (?T ! i))
          \<and> 0 \<le> the (response_time_hours (?T ! i))"
    if d: "response_time_hours (?T ! i) \<noteq> None"
  proof -
    from d a have pos: "0 < i" and ne: "sender (?T ! i) \<noteq> sender (?T ! (i - 1))" by simp_all
    then have eq: "response_time_hours (?T ! i) =
            hours_between (timestamp (?T ! (i - 1))) (timestamp (?T ! i))"
      using th(1) by simp
    from d obtain h where h: "response_time_hours (?T ! i) = Some h" by auto
    with eq have "hours_between (timestamp (?T ! (i - 1))) (timestamp (?T ! i)) = Some h" by simp
    from hours_between_nonneg[OF th(2)[OF pos] this] h eq show ?thesis by simp
  qed
  from a b show ?thesis by blast
qed

lemma thread_sample_result:
  "detect_replies_and_response_times thread_sample = Inr
     [blank_row\<lparr>is_first_message := True, is_outbound_initiated := True\<rparr>,
      blank_row\<lparr>idx := 1, sender := ''alice'', recipient := ''me'', direction := Inbound,
        contact_person := ''alice'', timestamp := Some 7200000000000,
        is_reply := True, is_outbound_initiated := True,
        response_time_hours := Some 2, previous_sender := Some ''me''\<rparr>]"
  by code_simp

theorem response_time_defined_iff_witness:
  "response_time_hours (thread_of ''t1'' (projr (detect_replies_and_response_times thread_sample)) ! 1) = Some 2
   \<and> sender (thread_of ''t1'' (projr (detect_replies_and_response_times thread_sample)) ! 1) = ''alice''
   \<and> sender (thread_of ''t1'' (projr (detect_replies_and_response_times thread_sample)) ! 0) = ''me''"
proof -
  let ?out = "projr (detect_replies_and_response_times thread_sample)"
  have r: "detect_replies_and_response_times thread_sample = Inr ?out"
    by (simp add: thread_sample_result)
  have d: "distinct (map idx thread_sample)"
    by (simp add: thread_sample_def blank_row_def)
  have l: "1 < length (thread_of ''t1'' ?out)"
    by (simp add: thread_sample_result thread_of_def blank_row_def)
  from response_time_defined_iff[OF d r l]
  show ?thesis
    by (simp add: thread_sample_result thread_of_def blank_row_def hours_between_def)
qed

text \<open>
  The claim as stated fails where a timestamp is missing: the second message has another
  sender than the first, and its response time is missing all the same.
\<close>

theorem response_time_nat_counterexample:
  "map_sum id (map (\<lambda>r. (sender r, timestamp r, response_time_hours r)))
     (detect_replies_and_response_times thread_sample_nat)
   = Inr [(''me'', Some 0, None), (''alice'', None, None)]"
  by code_simp

lemma keeps_filter_eq:
  assumes "keeps g"
  shows "map idx (filter (\<lambda>r. thread_id r = tid \<and> timestamp r = ts) (map g df))
       = map idx (filter (\<lambda>r. thread_id r = tid \<and> timestamp r = ts) df)"
  using assms by (induction df) (auto simp: keeps_def)

lemma ts_key_inj: "(ts_key a = ts_key b) = (a = b)"
  by (cases a; cases b) (simp_all add: ts_key_def)

lemma thread_ts_key_eq:
  "(thread_ts_key r = (tid, ts_key ts)) = (thread_id r = tid \<and> timestamp r = ts)"
  by (simp add: thread_ts_key_def ts_key_inj)

lemma sort_values_thread_ts_stable:
  "filter (\<lambda>r. thread_id r = tid \<and> timestamp r = ts) (sort_values_thread_ts df)
     = filter (\<lambda>r. thread_id r = tid \<and> timestamp r = ts) df"
  using sort_key_stable[of thread_ts_key "(tid, ts_key ts)" df]
  by (simp add: thread_ts_key_eq sort_values_thread_ts_def)

text \<open>
  Claim C4. The sort of thread reconstruction is stable: the messages of a thread that
  share a timestamp come out in the order they had in the input (identified by their
  labels), and each thread comes out ordered by timestamp, missing timestamps last.
  The loader's sort keeps the row order of equal timestamps in the same way.
\<close>

theorem thread_sort_stable:
  assumes "detect_replies_and_response_times df = Inr out"
  shows "map idx (filter (\<lambda>r. thread_id r = tid \<and> timestamp r = ts) out)
       = map idx (filter (\<lambda>r. thread_id r = tid \<and> timestamp r = ts) df)
     \<and> sorted (map (\<lambda>r. ts_key (timestamp r)) (thread_of tid out))
     \<and> filter (\<lambda>m. msg_thread_id m = tid \<and> msg_timestamp m = ts) (load_messages_csv raw)
       = filter (\<lambda>m. msg_thread_id m = tid \<and> msg_timestamp m = ts)
           (List.map_filter dropna_essential (enumerate 0 raw))"
proof -
  define S where "S = map init_columns (sort_values_thread_ts df)"
  obtain u where out: "out = foldl (process_thread u) S (unique (map thread_id S))"
    using assms unfolding detect_replies_and_response_times_def S_def[symmetric] Let_def
    by (auto split: list.splits)
  obtain g where g: "keeps g" "out = map g S"
    using foldl_process_thread_map[of u S "unique (map thread_id S)"] out by auto
  have gi: "keeps (\<lambda>r. g (init_columns r))" using g(1) keeps_init_columns by (rule keeps_comp)
  have o: "out = map (\<lambda>r. g (init_columns r)) (sort_values_thread_ts df)"
    using g(2) by (simp add: S_def)
  have a: "map idx (filter (\<lambda>r. thread_id r = tid \<and> timestamp r = ts) out)
       = map idx (filter (\<lambda>r. thread_id r = tid \<and> timestamp r = ts) df)"
    unfolding o keeps_filter_eq[OF gi] sort_values_thread_ts_stable ..
  have "thread_of tid out = map (\<lambda>r. g (init_columns r)) (thread_of tid (sort_values_thread_ts df))"
    unfolding o using gi by (rule thread_of_map_keeps)
  then have "map thread_ts_key (thread_of tid out)
     = map thread_ts_key (thread_of tid (sort_values_thread_ts df))"
    using gi by (simp add: thread_ts_key_def keeps_def)
  then have s: "sorted (map thread_ts_key (thread_of tid out))"
    using sorted_thread_ts by simp
  have "sorted (map (\<lambda>r. ts_key (timestamp r)) (thread_of tid out))"
  proof -
    have "map thread_ts_key (thread_of tid out)
        = map (\<lambda>r. (tid, ts_key (timestamp r))) (thread_of tid out)"
      by (rule map_cong[OF refl]) (simp add: thread_of_def thread_ts_key_def)
    with s have "sorted (map (Pair tid) (map (\<lambda>r. ts_key (timestamp r)) (thread_of tid out)))"
      by (simp add: comp_def)
    then show ?thesis
      by (simp add: sorted_map less_eq_prod_simp sorted_wrt_iff_nth_less)
  qed
  with a load_messages_csv_stable[of tid ts raw] show ?thesis by simp
qed

lemma thread_sample_tie_result:
  "map_sum id (map idx) (detect_replies_and_response_times thread_sample_tie) = Inr [1, 0]"
  by code_simp

theorem thread_sort_stable_witness:
  "map idx (filter (\<lambda>r. thread_id r = ''t1'' \<and> timestamp r = Some 0)
       (projr (detect_replies_and_response_times thread_sample_tie))) = [1, 0]
   \<and> sorted (map (\<lambda>r. ts_key (timestamp r))
        (thread_of ''t1'' (projr (detect_replies_and_response_times thread_sample_tie))))
   \<and> map msg_idx (filter (\<lambda>m. msg_thread_id m = ''t1'' \<and> msg_timestamp m = Some 0)
        (load_messages_csv raw_sample_tie)) = [0, 1]"
proof -
  let ?out = "projr (detect_replies_and_response_times thread_sample_tie)"
  have r: "detect_replies_and_response_times thread_sample_tie = Inr ?out"
    using thread_sample_tie_result
    by (cases "detect_replies_and_response_times thread_sample_tie") auto
  from thread_sort_stable[OF r, of "''t1''" "Some 0" raw_sample_tie]
  show ?thesis
    by (simp add: thread_sample_tie_def blank_row_def raw_sample_tie_def dropna_essential_def)
qed

section \<open>Properties of the outbound performance table\<close>

lemma set_responses_to: "set (responses_to df msg) = {x. is_response df msg x}"
  by (auto simp: responses_to_def sort_values_ts_def thread_of_def is_response_def)

lemma sorted_responses_to: "sorted (map (\<lambda>r. ts_key (timestamp r)) (responses_to df msg))"
  unfolding responses_to_def sort_values_ts_def
  by (rule sorted_filter) simp

lemma later_ts_key:
  "later a c \<Longrightarrow> later b c \<Longrightarrow> ts_key a \<le> ts_key b \<Longrightarrow> \<not> later a b"
  by (auto simp: later_def ts_key_def split: option.splits)

lemma first_response_earliest:
  assumes "responses_to df msg = fr # rest" and "is_response df msg y"
  shows "\<not> later (timestamp fr) (timestamp y)"
proof -
  have s: "sorted (map (\<lambda>r. ts_key (timestamp r)) (fr # rest))"
    using sorted_responses_to[of df msg] assms(1) by simp
  have "y \<in> set (responses_to df msg)" using assms(2) by (simp add: set_responses_to)
  then have yin: "y \<in> set (fr # rest)" using assms(1) by simp
  have "fr \<in> set (responses_to df msg)" using assms(1) by simp
  then have fr: "later (timestamp fr) (timestamp msg)" by (simp add: set_responses_to is_response_def)
  have y: "later (timestamp y) (timestamp msg)" using assms(2) by (simp add: is_response_def)
  have "ts_key (timestamp fr) \<le> ts_key (timestamp y)"
    using s yin by auto
  with fr y show ?thesis by (rule later_ts_key)
qed

lemma later_hours_between:
  "later b a \<Longrightarrow> hours_between a b = Some (real_of_int (the b - the a) / 1000000000 / 3600)"
  by (auto simp: later_def hours_between_def split: option.splits)

lemma outbound_row_response:
  "got_response (outbound_row df msg) = (\<exists>x. is_response df msg x)"
  "got_response (outbound_row df msg) \<Longrightarrow>
     \<exists>x. is_response df msg x \<and> (\<forall>y. is_response df msg y \<longrightarrow> \<not> later (timestamp x) (timestamp y))
       \<and> o_response_time_hours (outbound_row df msg) = hours_between (timestamp msg) (timestamp x)
       \<and> responder (outbound_row df msg) = Some (sender x)"
  "\<not> got_response (outbound_row df msg) \<Longrightarrow>
     o_response_time_hours (outbound_row df msg) = None \<and> responder (outbound_row df msg) = None"
proof -
  show "got_response (outbound_row df msg) = (\<exists>x. is_response df msg x)"
  proof -
    have "(responses_to df msg \<noteq> []) = (set (responses_to df msg) \<noteq> {})" by simp
    also have "\<dots> = (\<exists>x. is_response df msg x)" by (simp add: set_responses_to)
    finally show ?thesis by (simp add: outbound_row_def Let_def)
  qed
  show "\<exists>x. is_response df msg x \<and> (\<forall>y. is_response df msg y \<longrightarrow> \<not> later (timestamp x) (timestamp y))
       \<and> o_response_time_hours (outbound_row df msg) = hours_between (timestamp msg) (timestamp x)
       \<and> responder (outbound_row df msg) = Some (sender x)"
    if "got_response (outbound_row df msg)"
  proof -
    from that obtain fr rest where fr: "responses_to df msg = fr # rest"
      by (cases "responses_to df msg") (auto simp: outbound_row_def Let_def)
    then have "fr \<in> set (responses_to df msg)" by simp
    then have "is_response df msg fr" by (simp add: set_responses_to)
    moreover have "\<forall>y. is_response df msg y \<longrightarrow> \<not> later (timestamp fr) (timestamp y)"
      using first_response_earliest[OF fr] by blast
    moreover have "o_response_time_hours (outbound_row df msg) = hours_between (timestamp msg) (timestamp fr)"
      "responder (outbound_row df msg) = Some (sender fr)"
      using fr by (simp_all add: outbound_row_def Let_def)
    ultimately show ?thesis by blast
  qed
  show "o_response_time_hours (outbound_row df msg) = None \<and> responder (outbound_row df msg) = None"
    if "\<not> got_response (outbound_row df msg)"
    using that by (cases "responses_to df msg") (auto simp: outbound_row_def Let_def)
qed

lemma analyze_outbound_performance_nth:
  assumes "analyze_outbound_performance df = Inr table"
  shows "length table = length (self_initiated df)"
    and "i < length table \<Longrightarrow> table ! i = add_performance_score (outbound_row df (self_initiated df ! i))"
  using assms by (auto simp: analyze_outbound_performance_def Let_def split: if_splits)

lemma add_performance_score_fields:
  "got_response (add_performance_score r) = got_response r"
  "o_response_time_hours (add_performance_score r) = o_response_time_hours r"
  "responder (add_performance_score r) = responder r"
  "message_id (add_performance_score r) = message_id r"
  "o_sentiment_polarity (add_performance_score r) = o_sentiment_polarity r"
  "o_has_greeting (add_performance_score r) = o_has_greeting r"
  "o_question_count (add_performance_score r) = o_question_count r"
  "o_word_count (add_performance_score r) = o_word_count r"
  by (simp_all add: add_performance_score_def outbound_record.defs)

text \<open>
  Claim C2. The performance table has one record per self-initiated outbound message,
  in order. For each: \<open>got_response\<close> holds exactly when some inbound message of the same
  thread has a strictly later timestamp; then the response time is the elapsed time in
  hours to an earliest such message and the responder is that message's sender;
  otherwise both are missing.
\<close>

theorem outbound_response_detection:
  assumes "analyze_outbound_performance df = Inr table" and "i < length table"
  shows "length table = length (self_initiated df)
    \<and> message_id (table ! i) = idx (self_initiated df ! i)
    \<and> (got_response (table ! i) = (\<exists>x. is_response df (self_initiated df ! i) x))
    \<and> (got_response (table ! i) \<longrightarrow>
         (\<exists>x. is_response df (self_initiated df ! i) x
            \<and> (\<forall>y. is_response df (self_initiated df ! i) y \<longrightarrow> \<not> later (timestamp x) (timestamp y))
            \<and> o_response_time_hours (table ! i)
                 = Some (real_of_int (the (timestamp x) - the (timestamp (self_initiated df ! i)))
                     / 1000000000 / 3600)
            \<and> responder (table ! i) = Some (sender x)))
    \<and> (\<not> got_response (table ! i) \<longrightarrow>
         o_response_time_hours (table ! i) = None \<and> responder (table ! i) = None)"
proof -
  let ?msg = "self_initiated df ! i"
  note n = analyze_outbound_performance_nth[OF assms(1)]
  have t: "table ! i = add_performance_score (outbound_row df ?msg)" using n(2) assms(2) by simp
  have a: "message_id (table ! i) = idx ?msg"
    by (simp add: t add_performance_score_fields outbound_row_def Let_def)
  have b: "got_response (table ! i) = (\<exists>x. is_response df ?msg x)"
    by (simp add: t add_performance_score_fields outbound_row_response(1))
  have c: "\<exists>x. is_response df ?msg x
            \<and> (\<forall>y. is_response df ?msg y \<longrightarrow> \<not> later (timestamp x) (timestamp y))
            \<and> o_response_time_hours (table ! i)
                 = Some (real_of_int (the (timestamp x) - the (timestamp ?msg)) / 1000000000 / 3600)
            \<and> responder (table ! i) = Some (sender x)"
    if "got_response (table ! i)"
  proof -
    from that have "got_response (outbound_row df ?msg)" by (simp add: t add_performance_score_fields)
    from outbound_row_response(2)[OF this] obtain x where
      x: "is_response df ?msg x"
        "\<forall>y. is_response df ?msg y \<longrightarrow> \<not> later (timestamp x) (timestamp y)"
        "o_response_time_hours (outbound_row df ?msg) = hours_between (timestamp ?msg) (timestamp x)"
        "responder (outbound_row df ?msg) = Some (sender x)" by blast
    from x(1) have "later (timestamp x) (timestamp ?msg)" by (simp add: is_response_def)
    from later_hours_between[OF this] x(3)
    have "o_response_time_hours (table ! i)
        = Some (real_of_int (the (timestamp x) - the (timestamp ?msg)) / 1000000000 / 3600)"
      by (simp add: t add_performance_score_fields)
    moreover have "responder (table ! i) = Some (sender x)"
      using x(4) by (simp add: t add_performance_score_fields)
    ultimately show ?thesis using x(1,2) by blast
  qed
  have d: "o_response_time_hours (table ! i) = None \<and> responder (table ! i) = None"
    if "\<not> got_response (table ! i)"
    using that outbound_row_response(3)[of df ?msg] by (simp add: t add_performance_score_fields)
  from n(1) a b c d show ?thesis by blast
qed

text \<open>
  Claim C6. Every record of the performance table has
  \<open>performance_score = 10 * got_response + 2 * (sentiment_polarity + 1) + 1 * has_greeting
  + 0.5 * question_count + 0.1 * (word_count / 50)\<close>, the two flags counted as 0 or 1.
\<close>

theorem performance_score_formula:
  assumes "analyze_outbound_performance df = Inr table" and "r \<in> set table"
  shows "performance_score r =
      10 * of_bool (got_response r) + 2 * (o_sentiment_polarity r + 1)
      + 1 * of_bool (o_has_greeting r) + 0.5 * real (o_question_count r)
      + 0.1 * (real (o_word_count r) / 50)"
proof -
  from assms obtain q where "r = add_performance_score q"
    by (auto simp: analyze_outbound_performance_def Let_def split: if_splits)
  then show ?thesis
    by (simp add: add_performance_score_def outbound_record.defs)
qed

lemma analyze_outbound_sample:
  "map_sum id (map (\<lambda>r. (got_response r, o_response_time_hours r, responder r,
       performance_score r)))
     (analyze_outbound_performance outbound_sample)
   = Inr [(True, Some 2, Some ''alice'', 13.002)]"
  by code_simp

theorem outbound_response_detection_witness:
  "got_response (projr (analyze_outbound_performance outbound_sample) ! 0)
   \<and> (got_response (projr (analyze_outbound_performance outbound_sample) ! 0)
        = (\<exists>x. is_response outbound_sample (self_initiated outbound_sample ! 0) x))
   \<and> o_response_time_hours (projr (analyze_outbound_performance outbound_sample) ! 0) = Some 2
   \<and> responder (projr (analyze_outbound_performance outbound_sample) ! 0) = Some ''alice''"
proof -
  let ?table = "projr (analyze_outbound_performance outbound_sample)"
  note s = map_sum_Inr_projr[OF analyze_outbound_sample]
  from s have r: "analyze_outbound_performance outbound_sample = Inr ?table" by (rule conjunct1)
  from s have "map (\<lambda>r. (got_response r, o_response_time_hours r, responder r,
       performance_score r)) ?table = [(True, Some 2, Some ''alice'', 13.002)]" by (rule conjunct2)
  note h = map_singleton[OF this]
  from h have t: "?table = [hd ?table]" by (rule conjunct1)
  from h have v: "got_response (hd ?table) \<and> o_response_time_hours (hd ?table) = Some 2
     \<and> responder (hd ?table) = Some ''alice''" by simp
  have n: "?table ! 0 = hd ?table" by (subst t) simp
  have l: "0 < length ?table" by (subst t) simp
  from outbound_response_detection[OF r l]
  have "got_response (?table ! 0)
      = (\<exists>x. is_response outbound_sample (self_initiated outbound_sample ! 0) x)" by blast
  with v n show ?thesis by simp
qed

theorem performance_score_formula_witness:
  "performance_score (hd (projr (analyze_outbound_performance outbound_sample))) = 13.002
   \<and> got_response (hd (projr (analyze_outbound_performance outbound_sample)))"
proof -
  let ?table = "projr (analyze_outbound_performance outbound_sample)"
  note s = map_sum_Inr_projr[OF analyze_outbound_sample]
  from s have r: "analyze_outbound_performance outbound_sample = Inr ?table" by (rule conjunct1)
  from s have "map (\<lambda>r. (got_response r, o_response_time_hours r, responder r,
       performance_score r)) ?table = [(True, Some 2, Some ''alice'', 13.002)]" by (rule conjunct2)
  note h = map_singleton[OF this]
  from h have t: "?table = [hd ?table]" by (rule conjunct1)
  from h have v: "got_response (hd ?table) \<and> performance_score (hd ?table) = 13.002" by simp
  have m: "hd ?table \<in> set ?table" by (subst t) simp
  from performance_score_formula[OF r m] v
  show ?thesis by simp
qed

section \<open>Properties of the sales classifier\<close>

subsection \<open>The matcher decides membership of a part of the string in the language\<close>

lemma nullable_iff: "nullable r = ([] \<in> lang r)"
  by (induction r) (auto intro: star_nil)

lemma star_cons_split:
  assumes "x \<in> star A" and "x = c # w"
  shows "\<exists>u v. w = u @ v \<and> c # u \<in> A \<and> v \<in> star A"
  using assms
proof (induction arbitrary: w rule: star.induct)
  case star_nil
  then show ?case by simp
next
  case (star_app u v)
  show ?case
  proof (cases u)
    case Nil
    with star_app show ?thesis by simp
  next
    case (Cons d u')
    with star_app.prems have "d = c" "w = u' @ v" by simp_all
    with Cons star_app.hyps show ?thesis by blast
  qed
qed

lemma star_cons: "(c # w \<in> star A) = (\<exists>u v. w = u @ v \<and> c # u \<in> A \<and> v \<in> star A)"
proof
  assume "c # w \<in> star A"
  then show "\<exists>u v. w = u @ v \<and> c # u \<in> A \<and> v \<in> star A"
    by (rule star_cons_split) simp
next
  assume "\<exists>u v. w = u @ v \<and> c # u \<in> A \<and> v \<in> star A"
  then obtain u v where "w = u @ v" "c # u \<in> A" "v \<in> star A" by blast
  then show "c # w \<in> star A" using star_app[of "c # u" A v] by simp
qed

lemma lang_deriv: "(w \<in> lang (deriv c r)) = (c # w \<in> lang r)"
proof (induction r arbitrary: w)
  case (Seq r s)
  show ?case
  proof (cases "nullable r")
    case True
    then have n: "[] \<in> lang r" by (simp add: nullable_iff)
    show ?thesis
    proof
      assume "w \<in> lang (deriv c (Seq r s))"
      with True have "(\<exists>u v. w = u @ v \<and> u \<in> lang (deriv c r) \<and> v \<in> lang s)
          \<or> w \<in> lang (deriv c s)" by auto
      then show "c # w \<in> lang (Seq r s)"
      proof
        assume "\<exists>u v. w = u @ v \<and> u \<in> lang (deriv c r) \<and> v \<in> lang s"
        then obtain u v where "w = u @ v" "c # u \<in> lang r" "v \<in> lang s"
          using Seq.IH(1) by blast
        then have "c # w = (c # u) @ v \<and> c # u \<in> lang r \<and> v \<in> lang s" by simp
        then show ?thesis by (simp del: append_Cons) blast
      next
        assume "w \<in> lang (deriv c s)"
        then have "c # w \<in> lang s" using Seq.IH(2) by simp
        with n have "c # w = [] @ (c # w) \<and> [] \<in> lang r \<and> c # w \<in> lang s" by simp
        then show ?thesis by (simp del: append_Nil) blast
      qed
    next
      assume "c # w \<in> lang (Seq r s)"
      then obtain u v where uv: "c # w = u @ v" "u \<in> lang r" "v \<in> lang s" by auto
      show "w \<in> lang (deriv c (Seq r s))"
      proof (cases u)
        case Nil
        with uv have "w \<in> lang (deriv c s)" using Seq.IH(2) by simp
        with True show ?thesis by simp
      next
        case (Cons d u')
        with uv have "d = c" "w = u' @ v" by simp_all
        with Cons uv have "u' \<in> lang (deriv c r)" using Seq.IH(1) by simp
        with \<open>w = u' @ v\<close> uv(3) True show ?thesis by auto
      qed
    qed
  next
    case False
    then have n: "[] \<notin> lang r" by (simp add: nullable_iff)
    show ?thesis
    proof
      assume "w \<in> lang (deriv c (Seq r s))"
      with False obtain u v where "w = u @ v" "u \<in> lang (deriv c r)" "v \<in> lang s" by auto
      then have "c # w = (c # u) @ v \<and> c # u \<in> lang r \<and> v \<in> lang s"
        using Seq.IH(1) by simp
      then show "c # w \<in> lang (Seq r s)" by (simp del: append_Cons) blast
    next
      assume "c # w \<in> lang (Seq r s)"
      then obtain u v where uv: "c # w = u @ v" "u \<in> lang r" "v \<in> lang s" by auto
      with n obtain u' where u': "u = c # u'" "w = u' @ v" by (cases u) auto
      with uv have "u' \<in> lang (deriv c r)" using Seq.IH(1) by simp
      with u'(2) uv(3) False show "w \<in> lang (deriv c (Seq r s))" by auto
    qed
  qed
next
  case (Star r)
  have "(w \<in> lang (deriv c (Star r)))
      = (\<exists>u v. w = u @ v \<and> u \<in> lang (deriv c r) \<and> v \<in> star (lang r))" by auto
  also have "\<dots> = (\<exists>u v. w = u @ v \<and> c # u \<in> lang r \<and> v \<in> star (lang r))"
    using Star.IH by simp
  also have "\<dots> = (c # w \<in> lang (Star r))" by (simp add: star_cons)
  finally show ?case .
qed auto

lemma match_prefix_iff: "match_prefix r s = (\<exists>u v. s = u @ v \<and> u \<in> lang r)"
proof (induction s arbitrary: r)
  case Nil
  show ?case by (simp add: nullable_iff)
next
  case (Cons c cs)
  have "match_prefix r (c # cs)
      = ([] \<in> lang r \<or> (\<exists>u v. cs = u @ v \<and> c # u \<in> lang r))"
    by (simp add: nullable_iff Cons.IH lang_deriv)
  also have "\<dots> = (\<exists>u v. c # cs = u @ v \<and> u \<in> lang r)"
  proof
    assume "[] \<in> lang r \<or> (\<exists>u v. cs = u @ v \<and> c # u \<in> lang r)"
    then show "\<exists>u v. c # cs = u @ v \<and> u \<in> lang r"
    proof
      assume "[] \<in> lang r"
      then have "c # cs = [] @ (c # cs) \<and> [] \<in> lang r" by simp
      then show ?thesis by blast
    next
      assume "\<exists>u v. cs = u @ v \<and> c # u \<in> lang r"
      then obtain u v where "cs = u @ v" "c # u \<in> lang r" by blast
      then have "c # cs = (c # u) @ v \<and> c # u \<in> lang r" by simp
      then show ?thesis by blast
    qed
  next
    assume "\<exists>u v. c # cs = u @ v \<and> u \<in> lang r"
    then obtain u v where uv: "c # cs = u @ v" "u \<in> lang r" by blast
    show "[] \<in> lang r \<or> (\<exists>u v. cs = u @ v \<and> c # u \<in> lang r)"
    proof (cases u)
      case Nil
      with uv show ?thesis by simp
    next
      case (Cons d u')
      with uv have "d = c" "cs = u' @ v" by simp_all
      with Cons uv(2) show ?thesis by blast
    qed
  qed
  finally show ?case .
qed

lemma re_search_iff: "re_search r s = (\<exists>p u v. s = p @ u @ v \<and> u \<in> lang r)"
proof (induction s)
  case Nil
  show ?case by (simp add: nullable_iff)
next
  case (Cons c cs)
  show ?case
  proof
    assume "re_search r (c # cs)"
    then have "match_prefix r (c # cs) \<or> re_search r cs" by simp
    then show "\<exists>p u v. c # cs = p @ u @ v \<and> u \<in> lang r"
    proof
      assume "match_prefix r (c # cs)"
      then obtain u v where "c # cs = u @ v" "u \<in> lang r"
        unfolding match_prefix_iff by blast
      then have "c # cs = [] @ u @ v \<and> u \<in> lang r" by simp
      then show ?thesis by blast
    next
      assume "re_search r cs"
      then obtain p u v where "cs = p @ u @ v" "u \<in> lang r" using Cons.IH by blast
      then have "c # cs = (c # p) @ u @ v \<and> u \<in> lang r" by simp
      then show ?thesis by blast
    qed
  next
    assume "\<exists>p u v. c # cs = p @ u @ v \<and> u \<in> lang r"
    then obtain p u v where puv: "c # cs = p @ u @ v" "u \<in> lang r" by blast
    show "re_search r (c # cs)"
    proof (cases p)
      case Nil
      with puv have "\<exists>u v. c # cs = u @ v \<and> u \<in> lang r" by auto
      then have "match_prefix r (c # cs)" unfolding match_prefix_iff .
      then show ?thesis by simp
    next
      case (Cons d p')
      with puv have "cs = p' @ u @ v" by simp
      with puv(2) have "re_search r cs" using Cons.IH by blast
      then show ?thesis by simp
    qed
  qed
qed

subsection \<open>The classifier\<close>

lemma distinct_sales_keywords: "distinct sales_keywords"
  unfolding sales_keywords_def by simp

lemma distinct_business_patterns: "distinct business_patterns"
  unfolding business_patterns_def by (simp add: Lit_def Alts_def Plus_def Opt_def digit_def space_def)

lemma distinct_sales_questions: "distinct sales_questions"
  unfolding sales_questions_def by (simp add: Lit_def Alts_def)

lemma count_hits: "distinct xs \<Longrightarrow> sum_list (map (\<lambda>x. (1::nat)) (filter P xs)) = card {x \<in> set xs. P x}"
proof -
  assume d: "distinct xs"
  have "sum_list (map (\<lambda>x. (1::nat)) (filter P xs)) = length (filter P xs)"
    by (induction xs) auto
  also have "\<dots> = card (set (filter P xs))"
    using distinct_card[OF distinct_filter[OF d, of P]] by simp
  also have "set (filter P xs) = {x \<in> set xs. P x}" by auto
  finally show ?thesis .
qed

text \<open>
  Claim C7. A message is classified as sales exactly when the weighted score of its
  lower-cased content is at least 2; a missing content is never sales.
\<close>

theorem is_sales_message_iff:
  "is_sales_message content_cell =
     (case content_cell of None \<Rightarrow> False | Some c \<Rightarrow> weighted_score (py_lower c) \<ge> 2)"
  unfolding is_sales_message_def weighted_score_def Let_def
    count_hits[OF distinct_sales_keywords] count_hits[OF distinct_business_patterns]
    count_hits[OF distinct_sales_questions]
  by (simp split: option.splits add: algebra_simps)

lemma is_sales_message_sample: "is_sales_message (Some ''Are you open to a quick chat?'')"
  by code_simp

theorem is_sales_message_iff_witness:
  "is_sales_message (Some ''Are you open to a quick chat?'')
   \<and> 2 \<le> weighted_score (py_lower ''Are you open to a quick chat?'')
   \<and> \<not> is_sales_message None"
  using is_sales_message_iff[of "Some ''Are you open to a quick chat?''"]
    is_sales_message_iff[of None] is_sales_message_sample
  by simp

section \<open>Properties of text similarity and clustering\<close>

lemma run_le: "run a i \<le> Suc i"
  by (induction i) auto

lemma inner_loop_refl:
  assumes "sorted_wrt (<) js"
    and "\<forall>j \<in> set js. j < n"
    and "\<forall>j \<in> set js. j2lenget j2len j + 1 \<le> run a j \<and> j2lenget j2len j + 1 \<le> run a i"
    and "i \<in> set js \<longrightarrow> j2lenget j2len i + 1 = run a i"
    and "inner_inv a i js st"
  shows "inner_inv a i [] (inner_loop j2len 0 n i js st)"
  using assms
proof (induction js arbitrary: st)
  case Nil
  then show ?case by simp
next
  case (Cons j js)
  obtain bi bj bs nj where st: "st = ((bi, bj, bs), nj)" by (cases st) auto
  let ?k = "j2lenget j2len j + 1"
  let ?best' = "if ?k > bs then (Suc i - ?k, Suc j - ?k, ?k) else (bi, bj, bs)"
  have jn: "j < n" using Cons.prems(2) by simp
  have kj: "?k \<le> run a j" and ki: "?k \<le> run a i" using Cons.prems(3) by simp_all
  from Cons.prems(5) have inv: "bi = bj" "bi + bs \<le> Suc i" "\<forall>i' < i. run a i' \<le> bs"
    "i \<notin> set (j # js) \<longrightarrow> run a i \<le> bs \<and> nj i = run a i"
    "\<forall>j. nj j \<le> run a i \<and> nj j \<le> run a j"
    by (simp_all add: inner_inv_def st)
  have tail_gt: "\<forall>x \<in> set js. j < x" using Cons.prems(1) by simp
  have step: "inner_loop j2len 0 n i (j # js) st = inner_loop j2len 0 n i js (?best', nj(j := ?k))"
    using jn by (simp add: st Let_def)
  have eq: "i = j" if "?k > bs"
  proof (rule ccontr)
    assume "i \<noteq> j"
    then consider "j < i" | "i < j" by linarith
    then show False
    proof cases
      case 1
      with inv(3) have "run a j \<le> bs" by simp
      with kj that show False by simp
    next
      case 2
      with tail_gt have "i \<notin> set (j # js)" by auto
      with inv(4) have "run a i \<le> bs" by simp
      with ki that show False by simp
    qed
  qed
  have inv': "inner_inv a i js (?best', nj(j := ?k))"
  proof (cases "?k > bs")
    case True
    then have ij: "i = j" by (rule eq)
    have "?k \<le> Suc i" using ki run_le[of a i] by simp
    then have "Suc i - ?k + ?k \<le> Suc i" by simp
    moreover have "\<forall>i' < i. run a i' \<le> ?k" using inv(3) True by (meson le_trans less_imp_le)
    moreover have "run a i \<le> ?k \<and> (nj(j := ?k)) i = run a i"
      using Cons.prems(4) ij by simp
    moreover have "\<forall>x. (nj(j := ?k)) x \<le> run a i \<and> (nj(j := ?k)) x \<le> run a x"
      using inv(5) kj ki by simp
    ultimately show ?thesis using True ij by (simp add: inner_inv_def)
  next
    case False
    have "i \<notin> set js \<longrightarrow> run a i \<le> bs \<and> (nj(j := ?k)) i = run a i"
    proof
      assume nin: "i \<notin> set js"
      show "run a i \<le> bs \<and> (nj(j := ?k)) i = run a i"
      proof (cases "i = j")
        case True
        with Cons.prems(4) have "?k = run a i" by simp
        with False True show ?thesis by simp
      next
        case ne: False
        with nin have "i \<notin> set (j # js)" by simp
        with inv(4) ne show ?thesis by simp
      qed
    qed
    moreover have "\<forall>x. (nj(j := ?k)) x \<le> run a i \<and> (nj(j := ?k)) x \<le> run a x"
      using inv(5) kj ki by simp
    ultimately show ?thesis using False inv(1,2,3) by (simp add: inner_inv_def)
  qed
  have "inner_inv a i [] (inner_loop j2len 0 n i js (?best', nj(j := ?k)))"
  proof (rule Cons.IH[OF _ _ _ _ inv'])
    show "sorted_wrt (<) js" using Cons.prems(1) by simp
    show "\<forall>j \<in> set js. j < n" using Cons.prems(2) by simp
    show "\<forall>j \<in> set js. j2lenget j2len j + 1 \<le> run a j \<and> j2lenget j2len j + 1 \<le> run a i"
      using Cons.prems(3) by simp
    show "i \<in> set js \<longrightarrow> j2lenget j2len i + 1 = run a i"
      using Cons.prems(4) by simp
  qed
  with step show ?case by simp
qed

lemma run_nonpopular: "\<not> popular a (a ! i) \<Longrightarrow> run a i \<ge> 1"
  by (cases i) auto

lemma b2j_set: "set (b2j b elt) = (if popular b elt then {} else {j. j < length b \<and> b ! j = elt})"
  by (auto simp: b2j_def)

lemma b2j_sorted: "sorted_wrt (<) (b2j b elt)"
  by (simp add: b2j_def sorted_wrt_filter)

lemma j2lenget_bound:
  assumes "outer_inv a i ((bi, bj, bs), j2len)" and "\<not> popular a (a ! i)" and "a ! j = a ! i"
  shows "j2lenget j2len j + 1 \<le> run a j \<and> j2lenget j2len j + 1 \<le> run a i"
proof -
  have npj: "\<not> popular a (a ! j)" using assms(2,3) by simp
  have a1: "j2lenget j2len j + 1 \<le> run a j"
  proof (cases j)
    case 0
    with npj show ?thesis by (simp add: j2lenget_def)
  next
    case (Suc j')
    have "j2len j' \<le> run a j'"
      using assms(1) by (cases i) (simp_all add: outer_inv_def)
    with Suc npj show ?thesis by (simp add: j2lenget_def)
  qed
  have a2: "j2lenget j2len j + 1 \<le> run a i"
  proof (cases i)
    case 0
    with assms(1) have "j2lenget j2len j = 0"
      by (cases j) (simp_all add: outer_inv_def j2lenget_def)
    with 0 assms(2) show ?thesis by simp
  next
    case (Suc i')
    with assms(1) have "j2lenget j2len j \<le> run a i'"
      by (cases j) (simp_all add: outer_inv_def j2lenget_def)
    with Suc assms(2) show ?thesis by simp
  qed
  from a1 a2 show ?thesis ..
qed

lemma j2lenget_diag:
  assumes "outer_inv a i ((bi, bj, bs), j2len)" and "\<not> popular a (a ! i)"
  shows "j2lenget j2len i + 1 = run a i"
  using assms by (cases i) (simp_all add: outer_inv_def j2lenget_def)

lemma row_refl:
  assumes "outer_inv a i (best, j2len)" and "i < length a"
  shows "outer_inv a (Suc i)
           (inner_loop j2len 0 (length a) i (b2j a (a ! i)) (best, (\<lambda>_. 0)))"
proof -
  obtain bi bj bs where best: "best = (bi, bj, bs)" by (cases best) auto
  let ?js = "b2j a (a ! i)"
  have mem: "i \<in> set ?js \<longleftrightarrow> \<not> popular a (a ! i)"
    using assms(2) by (simp add: b2j_set)
  have np: "\<not> popular a (a ! i)" "a ! j = a ! i" if "j \<in> set ?js" for j
    using that by (auto simp: b2j_set split: if_splits)
  have inv0: "inner_inv a i ?js (best, (\<lambda>_. 0))"
  proof -
    have "run a i = 0" if "i \<notin> set ?js"
      using that mem by (cases i) auto
    then show ?thesis
      using assms(1) by (auto simp: inner_inv_def outer_inv_def best)
  qed
  have "inner_inv a i [] (inner_loop j2len 0 (length a) i ?js (best, (\<lambda>_. 0)))"
  proof (rule inner_loop_refl[OF b2j_sorted _ _ _ inv0])
    show "\<forall>j \<in> set ?js. j < length a" by (auto simp: b2j_set split: if_splits)
    show "\<forall>j \<in> set ?js. j2lenget j2len j + 1 \<le> run a j \<and> j2lenget j2len j + 1 \<le> run a i"
      using j2lenget_bound[OF assms(1)[unfolded best]] np by blast
    show "i \<in> set ?js \<longrightarrow> j2lenget j2len i + 1 = run a i"
      using j2lenget_diag[OF assms(1)[unfolded best]] mem by blast
  qed
  then show ?thesis
    by (cases "inner_loop j2len 0 (length a) i ?js (best, (\<lambda>_. 0))")
       (auto simp: inner_inv_def outer_inv_def less_Suc_eq)
qed

lemma outer_loop_refl:
  assumes "outer_inv a i st" and "i \<le> length a"
  shows "outer_inv a (length a) (outer_loop a a 0 (length a) [i..<length a] st)"
  using assms
proof (induction "length a - i" arbitrary: i st)
  case 0
  then have "i = length a" by simp
  with 0 show ?case by simp
next
  case (Suc d)
  then have lt: "i < length a" by simp
  obtain best j2len where st: "st = (best, j2len)" by (cases st) auto
  have up: "[i..<length a] = i # [Suc i..<length a]" using lt by (simp add: upt_conv_Cons)
  have r: "outer_inv a (Suc i)
      (inner_loop j2len 0 (length a) i (b2j a (a ! i)) (best, (\<lambda>_. 0)))"
    using Suc.prems(1) lt unfolding st by (rule row_refl)
  have d: "d = length a - Suc i" using Suc.hyps(2) by simp
  from Suc.hyps(1)[OF d r] lt show ?case
    by (simp add: up st)
qed

lemma extend_left_refl: "extend_left a a 0 0 (i, i, s) = (0, 0, s + i)"
proof (induction i arbitrary: s)
  case 0
  show ?case by (simp add: extend_left.simps[of a a 0 0 0 0 s])
next
  case (Suc i)
  have "extend_left a a 0 0 (Suc i, Suc i, s) = extend_left a a 0 0 (i, i, s + 1)"
    by (simp add: extend_left.simps[of a a 0 0 "Suc i" "Suc i" s])
  with Suc[of "s + 1"] show ?case by simp
qed

lemma extend_right_refl: "s \<le> n \<Longrightarrow> extend_right a a n n (0, 0, s) = (0, 0, n)"
proof (induction "n - s" arbitrary: s)
  case 0
  then have "s = n" by simp
  then show ?case by (simp add: extend_right.simps[of a a n n 0 0 n])
next
  case (Suc d)
  then have lt: "s < n" by simp
  have "extend_right a a n n (0, 0, s) = extend_right a a n n (0, 0, s + 1)"
    using lt by (simp add: extend_right.simps[of a a n n 0 0 s])
  moreover have "extend_right a a n n (0, 0, s + 1) = (0, 0, n)"
    using Suc.hyps(1)[of "s + 1"] Suc.hyps(2) lt by simp
  ultimately show ?case by simp
qed

lemma find_longest_match_refl:
  "find_longest_match a a 0 (length a) 0 (length a) = (0, 0, length a)"
proof -
  let ?n = "length a"
  have i0: "outer_inv a 0 ((0, 0, 0), (\<lambda>_. 0))" by (simp add: outer_inv_def)
  from outer_loop_refl[OF i0, simplified]
  have inv: "outer_inv a ?n (outer_loop a a 0 ?n [0..<?n] ((0, 0, 0), (\<lambda>_. 0)))" .
  obtain bi bj bs j2len where
    o: "outer_loop a a 0 ?n [0..<?n] ((0, 0, 0), (\<lambda>_. 0)) = ((bi, bj, bs), j2len)"
    by (cases "outer_loop a a 0 ?n [0..<?n] ((0, 0, 0), (\<lambda>_. 0))") auto
  from inv have b: "bi = bj" "bi + bs \<le> ?n" by (simp_all add: o outer_inv_def)
  have "find_longest_match a a 0 ?n 0 ?n = extend_right a a ?n ?n (extend_left a a 0 0 (bi, bi, bs))"
    using b(1) by (simp add: find_longest_match_def o)
  also have "\<dots> = extend_right a a ?n ?n (0, 0, bs + bi)" by (simp add: extend_left_refl)
  also have "\<dots> = (0, 0, ?n)" using b(2) by (intro extend_right_refl) simp
  finally show ?thesis .
qed

lemma blocks_refl: "blocks a a 0 (length a) 0 (length a) = (if a = [] then [] else [(0, 0, length a)])"
  by (subst blocks.simps) (simp add: find_longest_match_refl Let_def)

lemma ratio_reflexive: "ratio a a = 1"
  by (simp add: ratio_def get_matching_blocks_def blocks_refl calculate_ratio_def)

lemma sample_groups:
  "map (\<lambda>g. (pattern_preview g, message_count g, avg_response_time g))
     (group_messages (6/10) sales_sample sales_sample {})
   = [(''job offer'', 2, 5), (''saas demo'', 2, 1)]"
  by code_simp

lemma sample_patterns:
  "map (\<lambda>g. (pattern_preview g, message_count g, avg_response_time g))
     (find_similar_sales_patterns sales_sample (6/10))
   = [(''saas demo'', 2, 1), (''job offer'', 2, 5)]"
  by code_simp

lemma sim_tide: "similarity ''tide'' ''diet'' = 1/4 \<and> similarity ''diet'' ''tide'' = 1/2"
  by code_simp

lemma sort_reverse_sorted: "sorted_wrt (\<lambda>x y. key x \<ge> key y) (sort_reverse key xs)"
proof -
  have "sorted (map key (sort_key key (rev xs)))" by simp
  then have "sorted_wrt (\<lambda>x y. key x \<le> key y) (sort_key key (rev xs))"
    by (simp add: sorted_wrt_map)
  then show ?thesis
    by (simp add: sort_reverse_def sorted_wrt_rev)
qed

text \<open>
  Claim C8, as amended. The pattern list is sorted by member count descending, and
  groups of equal size are ordered by average response time ascending: the group that
  was answered faster comes first.
\<close>

theorem patterns_sorted:
  "sorted_wrt (\<lambda>g h. message_count g > message_count h
       \<or> (message_count g = message_count h \<and> avg_response_time g \<le> avg_response_time h))
     (find_similar_sales_patterns sales_messages similarity_threshold)"
proof (cases "sales_messages = []")
  case True
  then show ?thesis by (simp add: find_similar_sales_patterns_def)
next
  case False
  have "sorted_wrt (\<lambda>x y. pattern_sort_key x \<ge> pattern_sort_key y)
     (find_similar_sales_patterns sales_messages similarity_threshold)"
    using False by (simp add: find_similar_sales_patterns_def sort_reverse_sorted)
  then show ?thesis
    by (rule sorted_wrt_mono_rel[rotated])
       (auto simp: pattern_sort_key_def less_eq_prod_simp)
qed

theorem patterns_sorted_witness:
  "sorted_wrt (\<lambda>g h. message_count g > message_count h
       \<or> (message_count g = message_count h \<and> avg_response_time g \<le> avg_response_time h))
     (find_similar_sales_patterns sales_sample (6/10))
   \<and> map (\<lambda>g. (message_count g, avg_response_time g))
       (find_similar_sales_patterns sales_sample (6/10)) = [(2, 1), (2, 5)]"
proof -
  have "map (\<lambda>g. (message_count g, avg_response_time g))
       (find_similar_sales_patterns sales_sample (6/10))
     = map (\<lambda>(p, c, a). (c, a)) (map (\<lambda>g. (pattern_preview g, message_count g, avg_response_time g))
       (find_similar_sales_patterns sales_sample (6/10)))"
    by simp
  also have "\<dots> = [(2, 1), (2, 5)]" unfolding sample_patterns by simp
  finally show ?thesis using patterns_sorted[of sales_sample "6/10"] by simp
qed

text \<open>
  The claim as stated fails: the two groups of the sample have two members each, the
  slower one (5 hours) is found first and the faster one (1 hour) is listed first.
\<close>

theorem patterns_slower_first_counterexample:
  "map (\<lambda>g. (pattern_preview g, message_count g, avg_response_time g))
     (group_messages (6/10) sales_sample sales_sample {})
     = [(''job offer'', 2, 5), (''saas demo'', 2, 1)]
   \<and> map (\<lambda>g. (pattern_preview g, message_count g, avg_response_time g))
     (find_similar_sales_patterns sales_sample (6/10))
     = [(''saas demo'', 2, 1), (''job offer'', 2, 5)]"
  using sample_groups sample_patterns by simp

text \<open>
  Claim C9, as amended. The similarity of normalised contents is reflexive: every
  content has similarity 1 to itself. It is not symmetric.
\<close>

theorem similarity_reflexive: "similarity a a = 1"
  by (simp add: similarity_def ratio_reflexive)

text \<open>The claim as stated fails: the order of the two arguments changes the ratio.\<close>

theorem similarity_symmetric_counterexample:
  "similarity ''tide'' ''diet'' = 1/4 \<and> similarity ''diet'' ''tide'' = 1/2"
  by (rule sim_tide)

section \<open>Properties of the rate computations\<close>

text \<open>
  Claim C5. With a sales response rate of one half and a non-sales response rate of
  zero, the recommendation text divides by the non-sales rate and the function raises
  \<open>ZeroDivisionError\<close>; the lift computed a few lines before is guarded against the same
  zero.
\<close>

theorem sales_insights_zero_division:
  "get_sales_insights (Some performance_sample) [] = Inl ZeroDivisionError"
  by (simp add: get_sales_insights_def performance_sample_def truediv_def sort_reverse_def)

text \<open>The guarded rate of the conversation summary never raises.\<close>

lemma response_rate_total:
  "response_rate i 0 = Inr 0" "\<exists>r. response_rate i out = Inr r"
  by (auto simp: response_rate_def truediv_def)

end
